theory Spec2Isabelle
  imports Main "HOL-Library.List_Lexorder"
begin

section \<open>Data model\<close>

text \<open>
  The miner works on a table given column by column: for every attribute (an index into
  the list) the list of classes of row indices that carry the same value. A class is a
  Python set of row indices, a description (\<open>desc\<close>) is a Python list of classes, an
  attribute set is a Python tuple of attribute indices.
\<close>

type_synonym desc = "nat set list"
type_synonym attset = "nat list"

text \<open>
  The exceptions the program can raise. A miss of the partition cache (a level that is
  absent or \<open>None\<close>, or an attribute set absent from its level) is kept apart from the
  other \<open>KeyError\<close>s (\<open>set.remove\<close> of an absent element, \<open>del\<close> of an absent key).
\<close>

datatype error = CacheMiss | KeyError | TypeError | IndexError | ValueError

text \<open>
  Python does not fix the order in which a \<open>set\<close> is iterated, and \<open>map\<close> is eager in
  Python 2 and lazy in Python 3. Both are parameters of the model: \<open>iter\<close> lists the
  elements of a set of numbers (rows or attributes), \<open>iter_tuples\<close> those of a set of
  tuples, and \<open>eager_map\<close> says whether \<open>map\<close> runs the function it is given.
\<close>

record interp =
  eager_map :: bool
  iter :: "nat set \<Rightarrow> nat list"
  iter_tuples :: "attset set \<Rightarrow> attset list"

definition iter_ok :: "interp \<Rightarrow> bool" where
  "iter_ok py \<longleftrightarrow>
     (\<forall>S. finite S \<longrightarrow> set (iter py S) = S \<and> distinct (iter py S)) \<and>
     (\<forall>S. finite S \<longrightarrow> set (iter_tuples py S) = S \<and> distinct (iter_tuples py S))"

section \<open>PPattern.intersection: the stripped product\<close>

text \<open>
  The first loop of \<open>intersection\<close>: \<open>T[t] = i\<close> for every row \<open>t\<close> of the \<open>i\<close>-th class of
  \<open>desc1\<close>. \<open>S[i]\<close> starts as the empty set for every such \<open>i\<close>, and \<open>T\<close> holds no other
  index, so \<open>S[T[t]]\<close> never misses: \<open>S\<close> is a total function that starts empty everywhere.
\<close>

definition assign_blocks :: "interp \<Rightarrow> desc \<Rightarrow> (nat \<rightharpoonup> nat)" where
  "assign_blocks py desc1 =
     fold (\<lambda>(i, k) Tm. fold (\<lambda>t Tm. Tm(t \<mapsto> i)) (iter py k) Tm) (enumerate 0 desc1) Map.empty"

definition collect_row :: "(nat \<rightharpoonup> nat) \<Rightarrow> nat \<Rightarrow> (nat \<Rightarrow> nat set) \<Rightarrow> (nat \<Rightarrow> nat set)" where
  "collect_row Tm t S = (case Tm t of None \<Rightarrow> S | Some i \<Rightarrow> S(i := insert t (S i)))"

definition emit_row ::
  "(nat \<rightharpoonup> nat) \<Rightarrow> nat \<Rightarrow> (nat \<Rightarrow> nat set) \<times> desc \<Rightarrow> (nat \<Rightarrow> nat set) \<times> desc" where
  "emit_row Tm t = (\<lambda>(S, new_desc).
     (case Tm t of
        None \<Rightarrow> (S, new_desc)
      | Some i \<Rightarrow> (S(i := {}), if card (S i) > 1 then new_desc @ [S i] else new_desc)))"

definition intersect_class ::
  "interp \<Rightarrow> (nat \<rightharpoonup> nat) \<Rightarrow> nat set \<Rightarrow> (nat \<Rightarrow> nat set) \<times> desc \<Rightarrow> (nat \<Rightarrow> nat set) \<times> desc" where
  "intersect_class py Tm k = (\<lambda>(S, new_desc).
     fold (emit_row Tm) (iter py k) (fold (collect_row Tm) (iter py k) S, new_desc))"

definition intersection :: "interp \<Rightarrow> desc \<Rightarrow> desc \<Rightarrow> desc" where
  "intersection py desc1 desc2 =
     snd (fold (intersect_class py (assign_blocks py desc1)) desc2 (\<lambda>i. {}, []))"

definition pairwise_disjoint :: "desc \<Rightarrow> bool" where
  "pairwise_disjoint P \<longleftrightarrow> (\<forall>a\<in>set P. \<forall>b\<in>set P. a \<noteq> b \<longrightarrow> a \<inter> b = {})"

definition stripped :: "desc \<Rightarrow> bool" where
  "stripped P \<longleftrightarrow> pairwise_disjoint P \<and> (\<forall>c\<in>set P. finite c \<and> 2 \<le> card c)"



section \<open>Running a loop that may raise\<close>

text \<open>
  A \<open>for\<close> loop whose body may raise: the state is threaded through the elements in
  order and the first exception ends the loop.
\<close>

fun foldE :: "('a \<Rightarrow> 's \<Rightarrow> error + 's) \<Rightarrow> 'a list \<Rightarrow> 's \<Rightarrow> error + 's" where
  "foldE f [] s = Inr s"
| "foldE f (x # xs) s = (case f x s of Inl e \<Rightarrow> Inl e | Inr s' \<Rightarrow> foldE f xs s')"

text \<open>\<open>set.remove\<close>: raises \<open>KeyError\<close> when the element is absent.\<close>

definition set_remove :: "'a \<Rightarrow> 'a set \<Rightarrow> error + 'a set" where
  "set_remove x S = (if x \<in> S then Inr (S - {x}) else Inl KeyError)"

text \<open>\<open>X[:a] + X[a+1:]\<close>: the tuple without its position \<open>a\<close>.\<close>

definition del_pos :: "nat \<Rightarrow> attset \<Rightarrow> attset" where
  "del_pos a X = take a X @ drop (Suc a) X"

text \<open>\<open>X.index(y)\<close>: the first position of \<open>y\<close>, \<open>ValueError\<close> when there is none.\<close>

fun index :: "attset \<Rightarrow> nat \<Rightarrow> error + nat" where
  "index [] y = Inl ValueError"
| "index (x # xs) y =
     (if x = y then Inr 0 else (case index xs y of Inl e \<Rightarrow> Inl e | Inr a \<Rightarrow> Inr (Suc a)))"

text \<open>
  \<open>reduce(set.intersection, vs)\<close>: \<open>TypeError\<close> on the empty list, the single element
  itself on a list of one, the intersection from the left otherwise.
\<close>

fun reduce_intersection :: "nat set list \<Rightarrow> error + nat set" where
  "reduce_intersection [] = Inl TypeError"
| "reduce_intersection (v # vs) = Inr (foldl (\<inter>) v vs)"

section \<open>The state of a run\<close>

text \<open>
  One record holds the fields of the \<open>TANE\<close> object and of its \<open>PartitionsManager\<close>
  (\<open>pmgr\<close>), which share the table \<open>T\<close>. A level of the cache is a dict from attribute
  sets to partitions; the entry of level 0 is Python's \<open>None\<close>. \<open>R\<close> is
  \<open>range(len(T))\<close>.
\<close>

type_synonym level = "attset \<rightharpoonup> desc"

record tane =
  T :: "desc list"
  rules :: "(attset \<times> nat) list"
  cache :: "nat \<rightharpoonup> level option"
  current_level :: nat
  Cplus :: "attset \<rightharpoonup> nat set"

definition R :: "tane \<Rightarrow> nat list" where
  "R s = [0..<length (T s)]"

text \<open>\<open>TANE.__init__\<close> with \<open>PartitionsManager.__init__\<close>.\<close>

definition init :: "desc list \<Rightarrow> tane" where
  "init tab =
     \<lparr>T = tab, rules = [],
      cache = [0 \<mapsto> None, 1 \<mapsto> Some (map_of (map (\<lambda>(i, j). ([i], j)) (enumerate 0 tab)))],
      current_level = 1,
      Cplus = [[] \<mapsto> set [0..<length tab]]\<rparr>"

section \<open>PartitionsManager\<close>

text \<open>\<open>self.cache[len(X)][X]\<close>, the read every cache access makes.\<close>

definition cache_get :: "tane \<Rightarrow> attset \<Rightarrow> error + desc" where
  "cache_get s X =
     (case cache s (length X) of
        None \<Rightarrow> Inl CacheMiss
      | Some None \<Rightarrow> Inl CacheMiss
      | Some (Some m) \<Rightarrow> (case m X of None \<Rightarrow> Inl CacheMiss | Some P \<Rightarrow> Inr P))"

definition new_level :: "tane \<Rightarrow> tane" where
  "new_level s =
     s\<lparr>current_level := current_level s + 1,
       cache := (cache s)(current_level s + 1 \<mapsto> Some Map.empty)\<rparr>"

text \<open>
  \<open>del self.cache[self.current_level-2]\<close>. Below level 2 the key would be negative, and
  no key of the cache is.
\<close>

definition purge_old_level :: "tane \<Rightarrow> error + tane" where
  "purge_old_level s =
     (if current_level s < 2 \<or> cache s (current_level s - 2) = None then Inl KeyError
      else Inr (s\<lparr>cache := (cache s)(current_level s - 2 := None)\<rparr>))"

definition register_partition :: "interp \<Rightarrow> tane \<Rightarrow> attset \<Rightarrow> attset \<Rightarrow> attset \<Rightarrow> error + tane" where
  "register_partition py s X X0 X1 =
     (case cache_get s X0 of Inl e \<Rightarrow> Inl e | Inr P0 \<Rightarrow>
      (case cache_get s X1 of Inl e \<Rightarrow> Inl e | Inr P1 \<Rightarrow>
       (case cache s (length X) of
          Some (Some m) \<Rightarrow>
            Inr (s\<lparr>cache := (cache s)(length X \<mapsto> Some (m(X \<mapsto> intersection py P0 P1)))\<rparr>)
        | _ \<Rightarrow> Inl CacheMiss)))"

text \<open>
  Modelled from the spec: \<open>PPattern.leq\<close> is inherited from \<open>TrimmedPartitionPattern\<close>
  of the \<open>fca\<close> package, which is not part of the sources. The spec gives the refinement
  test: every class of the left partition is wholly contained in some single class of
  the right one.
\<close>

definition leq :: "desc \<Rightarrow> desc \<Rightarrow> bool" where
  "leq P Q \<longleftrightarrow> (\<forall>c\<in>set P. \<exists>d\<in>set Q. c \<subseteq> d)"

definition check_fd :: "tane \<Rightarrow> attset \<Rightarrow> nat \<Rightarrow> error + bool" where
  "check_fd s X y =
     (if X = [] then Inr False
      else (case cache_get s X of Inl e \<Rightarrow> Inl e | Inr left \<Rightarrow>
        (if y < length (T s) then Inr (leq left (T s ! y)) else Inl IndexError)))"

definition is_superkey :: "tane \<Rightarrow> attset \<Rightarrow> error + bool" where
  "is_superkey s X = (case cache_get s X of Inl e \<Rightarrow> Inl e | Inr P \<Rightarrow> Inr (P = []))"

section \<open>rdict: the recursive dictionary of Cplus\<close>

text \<open>
  \<open>__getitem__\<close> fills a missing key from its immediate subsets, which it reads (and
  fills) one after the other, in the order of the deleted position. The recursion
  descends one attribute at a time, so its depth is the length of the key: the first
  argument of \<open>getitem_depth\<close> counts it, and \<open>rdict_getitem\<close> starts it at \<open>len(key)\<close>. At
  depth 0 the key is empty, the list of subsets is empty and \<open>reduce\<close> raises.

  For a key of length one \<open>reduce\<close> returns the set object of \<open>Cplus[()]\<close> itself, so the
  entries of all single attributes are one shared object. The only mutation of an entry
  (in \<open>compute_dependencies\<close>) follows a successful \<open>check_fd\<close>, which needs a non-empty
  left-hand side, so a key of length two or more, whose entry \<open>set.intersection\<close> made
  afresh. The shared object is never mutated, and the entries are modelled by value.
\<close>

definition subkeys :: "attset \<Rightarrow> attset list" where
  "subkeys key = map (\<lambda>i. del_pos i key) [0..<length key]"

fun collect ::
  "('d \<Rightarrow> attset \<Rightarrow> error + nat set \<times> 'd) \<Rightarrow> attset list \<Rightarrow> 'd \<Rightarrow> error + nat set list \<times> 'd" where
  "collect f [] d = Inr ([], d)"
| "collect f (k # ks) d =
     (case f d k of Inl e \<Rightarrow> Inl e | Inr (v, d') \<Rightarrow>
      (case collect f ks d' of Inl e \<Rightarrow> Inl e | Inr (vs, d'') \<Rightarrow> Inr (v # vs, d'')))"

fun getitem_depth ::
  "nat \<Rightarrow> (attset \<rightharpoonup> nat set) \<Rightarrow> attset \<Rightarrow> error + nat set \<times> (attset \<rightharpoonup> nat set)" where
  "getitem_depth 0 d key =
     (case d key of Some v \<Rightarrow> Inr (v, d) | None \<Rightarrow> Inl TypeError)"
| "getitem_depth (Suc n) d key =
     (case d key of
        Some v \<Rightarrow> Inr (v, d)
      | None \<Rightarrow>
         (case collect (getitem_depth n) (subkeys key) d of Inl e \<Rightarrow> Inl e | Inr (vs, d') \<Rightarrow>
          (case reduce_intersection vs of Inl e \<Rightarrow> Inl e | Inr v \<Rightarrow> Inr (v, d'(key \<mapsto> v)))))"

definition rdict_getitem ::
  "(attset \<rightharpoonup> nat set) \<Rightarrow> attset \<Rightarrow> error + nat set \<times> (attset \<rightharpoonup> nat set)" where
  "rdict_getitem d key = getitem_depth (length key) d key"

text \<open>\<open>self.Cplus[X]\<close> on the state.\<close>

definition Cplus_get :: "tane \<Rightarrow> attset \<Rightarrow> error + nat set \<times> tane" where
  "Cplus_get s X =
     (case rdict_getitem (Cplus s) X of Inl e \<Rightarrow> Inl e | Inr (v, d) \<Rightarrow> Inr (v, s\<lparr>Cplus := d\<rparr>))"

section \<open>compute_dependencies\<close>

text \<open>
  Line 216, \<open>map(self.Cplus[X].remove, filter(lambda i: i not in X, self.Cplus[X]))\<close>:
  where \<open>map\<close> is eager (Python 2) every attribute outside \<open>X\<close> is removed from
  \<open>Cplus[X]\<close>; where it is lazy (Python 3) the iterator is dropped and nothing runs.
\<close>

definition restrict_Cplus :: "interp \<Rightarrow> attset \<Rightarrow> tane \<Rightarrow> error + tane" where
  "restrict_Cplus py X s =
     (if eager_map py then
        (case Cplus_get s X of Inl e \<Rightarrow> Inl e | Inr (v, s') \<Rightarrow>
         (case foldE set_remove (filter (\<lambda>i. i \<notin> set X) (iter py v)) v of
            Inl e \<Rightarrow> Inl e
          | Inr v' \<Rightarrow> Inr (s'\<lparr>Cplus := (Cplus s')(X \<mapsto> v')\<rparr>)))
      else Inr s)"

text \<open>The body of the inner loop, for one \<open>y\<close>.\<close>

definition dependency_step :: "interp \<Rightarrow> attset \<Rightarrow> nat \<Rightarrow> tane \<Rightarrow> error + tane" where
  "dependency_step py X y s =
     (case index X y of Inl e \<Rightarrow> Inl e | Inr a \<Rightarrow>
      (case check_fd s (del_pos a X) y of
         Inl e \<Rightarrow> Inl e
       | Inr False \<Rightarrow> Inr s
       | Inr True \<Rightarrow>
          (case Cplus_get (s\<lparr>rules := rules s @ [(del_pos a X, y)]\<rparr>) X of
             Inl e \<Rightarrow> Inl e
           | Inr (v, s') \<Rightarrow>
              (case set_remove y v of
                 Inl e \<Rightarrow> Inl e
               | Inr v' \<Rightarrow> restrict_Cplus py X (s'\<lparr>Cplus := (Cplus s')(X \<mapsto> v')\<rparr>)))))"

text \<open>The body of the outer loop, for one \<open>X\<close>.\<close>

definition dependency_node :: "interp \<Rightarrow> attset \<Rightarrow> tane \<Rightarrow> error + tane" where
  "dependency_node py X s =
     (case Cplus_get s X of Inl e \<Rightarrow> Inl e | Inr (v, s') \<Rightarrow>
        foldE (dependency_step py X) (iter py (v \<inter> set X)) s')"

definition compute_dependencies :: "interp \<Rightarrow> attset set \<Rightarrow> tane \<Rightarrow> error + tane" where
  "compute_dependencies py L s = foldE (dependency_node py) (iter_tuples py L) s"

section \<open>prune\<close>

text \<open>
  The test of the superkey case for one \<open>y\<close> outside \<open>X\<close>: \<open>y\<close> lies in the
  intersection of \<open>Cplus\<close> over the sets that replace one attribute of \<open>X\<close> by \<open>y\<close>.
\<close>

definition superkey_rule :: "attset \<Rightarrow> nat \<Rightarrow> tane \<Rightarrow> error + tane" where
  "superkey_rule X y s =
     (case collect rdict_getitem (map (\<lambda>b. sort (del_pos b X @ [y])) [0..<length X]) (Cplus s) of
        Inl e \<Rightarrow> Inl e
      | Inr (vs, d) \<Rightarrow>
         (case reduce_intersection vs of
            Inl e \<Rightarrow> Inl e
          | Inr v \<Rightarrow>
             Inr (if y \<in> v then s\<lparr>Cplus := d, rules := rules s @ [(X, y)]\<rparr> else s\<lparr>Cplus := d\<rparr>)))"

text \<open>The body of the first loop of \<open>prune\<close>, for one \<open>X\<close>.\<close>

definition prune_node :: "interp \<Rightarrow> attset \<Rightarrow> tane \<times> attset set \<Rightarrow> error + tane \<times> attset set" where
  "prune_node py X = (\<lambda>(s, clean_idx).
     (case Cplus_get s X of Inl e \<Rightarrow> Inl e | Inr (v, s1) \<Rightarrow>
      (case is_superkey s1 X of
         Inl e \<Rightarrow> Inl e
       | Inr False \<Rightarrow> Inr (s1, if v = {} then insert X clean_idx else clean_idx)
       | Inr True \<Rightarrow>
          (case Cplus_get s1 X of Inl e \<Rightarrow> Inl e | Inr (v2, s2) \<Rightarrow>
           (case foldE (superkey_rule X) (filter (\<lambda>x. x \<notin> set X) (iter py v2)) s2 of
              Inl e \<Rightarrow> Inl e
            | Inr s3 \<Rightarrow> Inr (s3, insert X clean_idx))))))"

text \<open>\<open>prune\<close> shrinks \<open>L\<close> in place; the model returns the shrunk set.\<close>

definition prune :: "interp \<Rightarrow> attset set \<Rightarrow> tane \<Rightarrow> error + tane \<times> attset set" where
  "prune py L s =
     (case foldE (prune_node py) (iter_tuples py L) (s, {}) of
        Inl e \<Rightarrow> Inl e
      | Inr (s', clean_idx) \<Rightarrow>
         (case foldE set_remove (iter_tuples py clean_idx) L of
            Inl e \<Rightarrow> Inl e
          | Inr L' \<Rightarrow> Inr (s', L')))"

section \<open>generate_next_level\<close>

text \<open>
  \<open>prefix_blocks\<close>: the dict \<open>blocks\<close> is an association list (every key once), filled in
  the order in which \<open>L\<close> is iterated; \<open>blocks.values()\<close> lists the blocks in the order in
  which the keys of the dict are iterated.
\<close>

fun add_block :: "attset \<Rightarrow> (attset \<times> attset list) list \<Rightarrow> (attset \<times> attset list) list" where
  "add_block atts [] = [(butlast atts, [atts])]"
| "add_block atts ((k, b) # blocks) =
     (if k = butlast atts then (k, b @ [atts]) # blocks else (k, b) # add_block atts blocks)"

definition prefix_blocks :: "interp \<Rightarrow> attset set \<Rightarrow> attset list list" where
  "prefix_blocks py L =
     (let blocks = fold add_block (iter_tuples py L) []
      in concat (map (\<lambda>k. map snd (filter (\<lambda>kb. fst kb = k) blocks))
                     (iter_tuples py (set (map fst blocks)))))"

text \<open>\<open>itertools.combinations(k, 2)\<close>.\<close>

fun combinations2 :: "'a list \<Rightarrow> ('a \<times> 'a) list" where
  "combinations2 [] = []"
| "combinations2 (x # xs) = map (Pair x) xs @ combinations2 xs"

text \<open>The body of the loop over the pairs of a block. \<open>i[-1]\<close> raises on an empty tuple.\<close>

definition candidate ::
  "interp \<Rightarrow> attset set \<Rightarrow> attset \<times> attset \<Rightarrow> tane \<times> attset set \<Rightarrow> error + tane \<times> attset set" where
  "candidate py L = (\<lambda>(i, j) (s, next_L).
     (if i = [] \<or> j = [] then Inl IndexError
      else
        (let X = (if last i < last j then i @ [last j] else j @ [last i]) in
         if list_all (\<lambda>a. del_pos a X \<in> L) [0..<length X]
         then (case register_partition py s X i j of
                 Inl e \<Rightarrow> Inl e
               | Inr s' \<Rightarrow> Inr (s', insert X next_L))
         else Inr (s, next_L))))"

definition generate_next_level :: "interp \<Rightarrow> attset set \<Rightarrow> tane \<Rightarrow> error + tane \<times> attset set" where
  "generate_next_level py L s =
     foldE (\<lambda>k. foldE (candidate py L) (combinations2 k)) (prefix_blocks py L) (new_level s, {})"

section \<open>run\<close>

text \<open>
  One pass of the \<open>while\<close> loop on the level \<open>L[l]\<close>. The list \<open>L\<close> of the source is only
  read at its last index \<open>l\<close>, so the loop carries that one set.
\<close>

definition tane_iteration :: "interp \<Rightarrow> tane \<times> attset set \<Rightarrow> error + tane \<times> attset set" where
  "tane_iteration py = (\<lambda>(s, L).
     (case compute_dependencies py L s of Inl e \<Rightarrow> Inl e | Inr s1 \<Rightarrow>
      (case prune py L s1 of Inl e \<Rightarrow> Inl e | Inr (s2, L') \<Rightarrow>
       (case generate_next_level py L' s2 of Inl e \<Rightarrow> Inl e | Inr (s3, next_L) \<Rightarrow>
        (case purge_old_level s3 of Inl e \<Rightarrow> Inl e | Inr s4 \<Rightarrow> Inr (s4, next_L))))))"

text \<open>The \<open>while\<close> loop: \<open>None\<close> is a loop that never ends.\<close>

partial_function (option) run_loop :: "interp \<Rightarrow> tane \<times> attset set \<Rightarrow> (error + tane) option" where
  "run_loop py sL =
     (if snd sL = {} then Some (Inr (fst sL))
      else (case tane_iteration py sL of Inl e \<Rightarrow> Some (Inl e) | Inr sL' \<Rightarrow> run_loop py sL'))"

declare run_loop.simps [code]

text \<open>\<open>TANE(T).run()\<close>: the constructor, then \<open>run\<close> from the level of the single attributes.\<close>

definition run :: "interp \<Rightarrow> desc list \<Rightarrow> (error + tane) option" where
  "run py tab = run_loop py (init tab, set (map (\<lambda>i. [i]) [0..<length tab]))"
subsection \<open>The classes the product yields\<close>


lemma fold_assign: "fold (\<lambda>t Tm. Tm(t \<mapsto> i)) ts Tm = (\<lambda>x. if x \<in> set ts then Some i else Tm x)"
  by (induction ts arbitrary: Tm) (auto simp: fun_eq_iff)

lemma assign_blocks_snoc:
  "assign_blocks py (ds @ [k]) =
     (\<lambda>x. if x \<in> set (iter py k) then Some (length ds) else assign_blocks py ds x)"
  by (simp add: assign_blocks_def enumerate_append_eq fold_assign fun_eq_iff)

lemma assign_blocks_Nil: "assign_blocks py [] = Map.empty"
  by (simp add: assign_blocks_def)

definition last_block :: "desc \<Rightarrow> nat \<Rightarrow> nat \<Rightarrow> bool" where
  "last_block ds t i \<longleftrightarrow>
     i < length ds \<and> t \<in> ds ! i \<and> (\<forall>j. i < j \<and> j < length ds \<longrightarrow> t \<notin> ds ! j)"

lemma last_block_snoc_in: "t \<in> k \<Longrightarrow> last_block (ds @ [k]) t i \<longleftrightarrow> i = length ds"
proof
  assume t: "t \<in> k" and lb: "last_block (ds @ [k]) t i"
  show "i = length ds"
  proof (rule ccontr)
    assume "i \<noteq> length ds"
    with lb have "i < length ds" by (simp add: last_block_def)
    with lb have "t \<notin> (ds @ [k]) ! length ds" unfolding last_block_def
      by (elim conjE allE[of _ "length ds"]) simp
    with t show False by simp
  qed
next
  assume "t \<in> k" "i = length ds"
  then show "last_block (ds @ [k]) t i" by (auto simp: last_block_def)
qed

lemma last_block_snoc_out: "t \<notin> k \<Longrightarrow> last_block (ds @ [k]) t i \<longleftrightarrow> last_block ds t i"
proof
  assume t: "t \<notin> k" and lb: "last_block (ds @ [k]) t i"
  have "i \<noteq> length ds" using lb t by (auto simp: last_block_def)
  with lb have i: "i < length ds" by (simp add: last_block_def)
  have "\<And>j. i < j \<Longrightarrow> j < length ds \<Longrightarrow> t \<notin> ds ! j"
  proof -
    fix j assume j: "i < j" "j < length ds"
    with lb have "t \<notin> (ds @ [k]) ! j" unfolding last_block_def by simp
    with j show "t \<notin> ds ! j" by (simp add: nth_append)
  qed
  with lb i show "last_block ds t i" by (simp add: last_block_def nth_append)
next
  assume t: "t \<notin> k" and lb: "last_block ds t i"
  have "\<And>j. i < j \<Longrightarrow> j < length (ds @ [k]) \<Longrightarrow> t \<notin> (ds @ [k]) ! j"
  proof -
    fix j assume j: "i < j" "j < length (ds @ [k])"
    show "t \<notin> (ds @ [k]) ! j"
    proof (cases "j = length ds")
      case True then show ?thesis using t by simp
    next
      case False
      with j have "j < length ds" by simp
      with lb j show ?thesis by (simp add: last_block_def nth_append)
    qed
  qed
  with lb show "last_block (ds @ [k]) t i" by (simp add: last_block_def nth_append)
qed

lemma assign_blocks_iff:
  assumes "iter_ok py" "\<forall>c\<in>set ds. finite c"
  shows "assign_blocks py ds t = Some i \<longleftrightarrow> last_block ds t i"
  using assms(2)
proof (induction ds arbitrary: i rule: rev_induct)
  case Nil
  then show ?case by (simp add: assign_blocks_Nil last_block_def)
next
  case (snoc k ds)
  have k: "set (iter py k) = k" using assms(1) snoc.prems by (simp add: iter_ok_def)
  have IH: "assign_blocks py ds t = Some i \<longleftrightarrow> last_block ds t i"
    using snoc by simp
  show ?case
  proof (cases "t \<in> k")
    case True
    then show ?thesis
      by (auto simp: assign_blocks_snoc k last_block_snoc_in)
  next
    case False
    then show ?thesis
      by (simp add: assign_blocks_snoc k IH last_block_snoc_out)
  qed
qed


lemma collect_row_apply:
  "collect_row Tm t S i = (if Tm t = Some i then insert t (S i) else S i)"
  by (cases "Tm t") (auto simp: collect_row_def)

lemma fold_collect_row:
  "fold (collect_row Tm) ts S = (\<lambda>i. S i \<union> {t \<in> set ts. Tm t = Some i})"
proof (induction ts arbitrary: S)
  case Nil
  then show ?case by simp
next
  case (Cons t ts)
  show ?case
    unfolding fold_simps(2) Cons by (auto simp: collect_row_apply fun_eq_iff)
qed

lemma emit_row_None: "Tm t = None \<Longrightarrow> emit_row Tm t (S, nd) = (S, nd)"
  by (simp add: emit_row_def)

lemma emit_row_Some:
  "Tm t = Some i \<Longrightarrow>
   emit_row Tm t (S, nd) = (S(i := {}), if 1 < card (S i) then nd @ [S i] else nd)"
  by (simp add: emit_row_def)

lemma fold_emit_row_fst:
  "fst (fold (emit_row Tm) ts (S, nd)) = (\<lambda>i. if \<exists>t\<in>set ts. Tm t = Some i then {} else S i)"
proof (induction ts arbitrary: S nd)
  case Nil
  then show ?case by simp
next
  case (Cons t ts)
  show ?case
    by (cases "Tm t") (auto simp: Cons emit_row_None emit_row_Some fun_eq_iff)
qed

lemma fold_emit_row_snd:
  "set (snd (fold (emit_row Tm) ts (S, nd))) =
     set nd \<union> {S i | i. (\<exists>t\<in>set ts. Tm t = Some i) \<and> 1 < card (S i)}"
proof (induction ts arbitrary: S nd)
  case Nil
  then show ?case by simp
next
  case (Cons t ts)
  show ?case
  proof (cases "Tm t")
    case None
    then show ?thesis by (simp add: Cons emit_row_None)
  next
    case (Some i)
    have *: "{(S(i := {})) j | j. (\<exists>t\<in>set ts. Tm t = Some j) \<and> 1 < card ((S(i := {})) j)}
           = {S j | j. j \<noteq> i \<and> (\<exists>t\<in>set ts. Tm t = Some j) \<and> 1 < card (S j)}"
      by auto
    show ?thesis
      apply (simp add: Cons emit_row_Some Some * del: fun_upd_apply)
      using Some apply auto
      done
  qed
qed


lemma assign_blocks_None:
  assumes "iter_ok py" "\<forall>c\<in>set ds. finite c"
  shows "assign_blocks py ds t = None \<longleftrightarrow> t \<notin> \<Union>(set ds)"
  using assms(2)
proof (induction ds rule: rev_induct)
  case Nil
  then show ?case by (simp add: assign_blocks_Nil)
next
  case (snoc k ds)
  have k: "set (iter py k) = k" using assms(1) snoc.prems by (simp add: iter_ok_def)
  show ?case using snoc by (simp add: assign_blocks_snoc k)
qed

definition product_classes :: "desc \<Rightarrow> desc \<Rightarrow> nat set set" where
  "product_classes A B = {a \<inter> b | a b. a \<in> set A \<and> b \<in> set B \<and> 1 < card (a \<inter> b)}"

lemma card_gt1_ne: "1 < card S \<Longrightarrow> \<exists>x. x \<in> S"
  by (cases "S = {}") auto

lemma pairwise_disjointD:
  "pairwise_disjoint P \<Longrightarrow> a \<in> set P \<Longrightarrow> b \<in> set P \<Longrightarrow> t \<in> a \<Longrightarrow> t \<in> b \<Longrightarrow> a = b"
  unfolding pairwise_disjoint_def by blast

lemma last_blockD: "last_block A t i \<Longrightarrow> i < j \<Longrightarrow> j < length A \<Longrightarrow> t \<notin> A ! j"
  by (simp add: last_block_def)

lemma same_block:
  assumes ok: "iter_ok py" and fin: "\<forall>c\<in>set A. finite c" and dis: "pairwise_disjoint A"
    and t0: "assign_blocks py A t0 = Some i" and t: "t \<in> A ! i"
  shows "assign_blocks py A t = Some i"
proof -
  have lb0: "last_block A t0 i" using assign_blocks_iff[OF ok fin] t0 by simp
  then have i: "i < length A" "t0 \<in> A ! i" by (simp_all add: last_block_def)
  then have "t \<in> \<Union>(set A)" using t by auto
  then obtain j where j: "assign_blocks py A t = Some j"
    using assign_blocks_None[OF ok fin, of t] by auto
  then have lb: "last_block A t j" using assign_blocks_iff[OF ok fin] by simp
  then have j': "j < length A" "t \<in> A ! j" by (simp_all add: last_block_def)
  have "A ! i = A ! j"
    using pairwise_disjointD[OF dis _ _ t j'(2)] i j' by simp
  have "\<not> i < j" using last_blockD[OF lb0 _ j'(1)] i \<open>A ! i = A ! j\<close> by auto
  moreover have "\<not> j < i" using last_blockD[OF lb _ i(1)] t by auto
  ultimately show ?thesis using j by simp
qed

lemma block_classes:
  assumes ok: "iter_ok py" and fin: "\<forall>c\<in>set A. finite c" and dis: "pairwise_disjoint A"
  shows "{{t \<in> k. assign_blocks py A t = Some i} | i. 1 < card {t \<in> k. assign_blocks py A t = Some i}}
       = {a \<inter> k | a. a \<in> set A \<and> 1 < card (a \<inter> k)}" (is "?L = ?R")
proof -
  let ?C = "\<lambda>i. {t \<in> k. assign_blocks py A t = Some i}"
  have C: "?C i = A ! i \<inter> k \<and> i < length A" if "t0 \<in> ?C i" for t0 i
  proof -
    from that have t0: "assign_blocks py A t0 = Some i" by simp
    then have "last_block A t0 i" using assign_blocks_iff[OF ok fin] by simp
    then have i: "i < length A" by (simp add: last_block_def)
    have "?C i \<subseteq> A ! i \<inter> k"
      using assign_blocks_iff[OF ok fin] by (auto simp: last_block_def)
    moreover have "A ! i \<inter> k \<subseteq> ?C i"
      using same_block[OF ok fin dis t0] by auto
    ultimately show ?thesis using i by auto
  qed
  have "?L \<subseteq> ?R"
  proof
    fix c assume "c \<in> ?L"
    then obtain i where c: "c = ?C i" "1 < card (?C i)" by auto
    then obtain t0 where "t0 \<in> ?C i" using card_gt1_ne by blast
    from C[OF this] have "c = A ! i \<inter> k" "A ! i \<in> set A" "1 < card (A ! i \<inter> k)"
      using c by simp_all
    then show "c \<in> ?R" by blast
  qed
  moreover have "?R \<subseteq> ?L"
  proof
    fix c assume "c \<in> ?R"
    then obtain a where a: "c = a \<inter> k" "a \<in> set A" "1 < card (a \<inter> k)" by auto
    then obtain t1 where t1: "t1 \<in> a" "t1 \<in> k" using card_gt1_ne[of "a \<inter> k"] by blast
    then have "t1 \<in> \<Union>(set A)" using a by auto
    then obtain j where j: "assign_blocks py A t1 = Some j"
      using assign_blocks_None[OF ok fin, of t1] by auto
    then have "last_block A t1 j" using assign_blocks_iff[OF ok fin] by simp
    then have j': "j < length A" "t1 \<in> A ! j" by (simp_all add: last_block_def)
    have "A ! j = a"
      using pairwise_disjointD[OF dis _ a(2) j'(2) t1(1)] j' by simp
    have "t1 \<in> ?C j" using j t1 by simp
    from C[OF this] have "?C j = a \<inter> k" using \<open>A ! j = a\<close> by simp
    then have "c = ?C j" "1 < card (?C j)" using a by simp_all
    then show "c \<in> ?L" by blast
  qed
  ultimately show ?thesis by blast
qed

lemma intersect_class_empty:
  assumes ok: "iter_ok py" and fin: "\<forall>c\<in>set A. finite c" and dis: "pairwise_disjoint A"
    and k: "finite k"
  shows "fst (intersect_class py (assign_blocks py A) k (\<lambda>i. {}, nd)) = (\<lambda>i. {})"
    and "set (snd (intersect_class py (assign_blocks py A) k (\<lambda>i. {}, nd)))
         = set nd \<union> {a \<inter> k | a. a \<in> set A \<and> 1 < card (a \<inter> k)}"
proof -
  have sk: "set (iter py k) = k" using ok k by (simp add: iter_ok_def)
  show "fst (intersect_class py (assign_blocks py A) k (\<lambda>i. {}, nd)) = (\<lambda>i. {})"
    by (auto simp: intersect_class_def fold_emit_row_fst fold_collect_row sk fun_eq_iff)
  have "{{t \<in> k. assign_blocks py A t = Some i} | i.
           (\<exists>t\<in>k. assign_blocks py A t = Some i) \<and> 1 < card {t \<in> k. assign_blocks py A t = Some i}}
      = {{t \<in> k. assign_blocks py A t = Some i} | i. 1 < card {t \<in> k. assign_blocks py A t = Some i}}"
    (is "?X = ?Y")
  proof -
    have "{t \<in> k. assign_blocks py A t = Some i} \<noteq> {}"
      if "1 < card {t \<in> k. assign_blocks py A t = Some i}" for i
      using card_gt1_ne[OF that] by blast
    then show ?thesis by blast
  qed
  moreover have "set (snd (intersect_class py (assign_blocks py A) k (\<lambda>i. {}, nd)))
         = set nd \<union> ?X"
    by (simp add: intersect_class_def fold_emit_row_snd fold_collect_row sk)
  ultimately show "set (snd (intersect_class py (assign_blocks py A) k (\<lambda>i. {}, nd)))
         = set nd \<union> {a \<inter> k | a. a \<in> set A \<and> 1 < card (a \<inter> k)}"
    using block_classes[OF ok fin dis, of k] by simp
qed

lemma fold_intersect_class:
  assumes ok: "iter_ok py" and fin: "\<forall>c\<in>set A. finite c" and dis: "pairwise_disjoint A"
    and finB: "\<forall>c\<in>set B. finite c"
  shows "\<exists>nd'. fold (intersect_class py (assign_blocks py A)) B (\<lambda>i. {}, nd) = (\<lambda>i. {}, nd')
          \<and> set nd' = set nd \<union> product_classes A B"
  using finB
proof (induction B arbitrary: nd)
  case Nil
  then show ?case by (simp add: product_classes_def)
next
  case (Cons k B)
  obtain S1 nd1 where r: "intersect_class py (assign_blocks py A) k (\<lambda>i. {}, nd) = (S1, nd1)"
    by (cases "intersect_class py (assign_blocks py A) k (\<lambda>i. {}, nd)")
  have k: "finite k" using Cons.prems by simp
  from intersect_class_empty[OF ok fin dis k, of nd] r
  have S1: "S1 = (\<lambda>i. {})" and nd1: "set nd1 = set nd \<union> {a \<inter> k | a. a \<in> set A \<and> 1 < card (a \<inter> k)}"
    by simp_all
  from Cons.IH[of nd1] Cons.prems obtain nd' where
    nd': "fold (intersect_class py (assign_blocks py A)) B (\<lambda>i. {}, nd1) = (\<lambda>i. {}, nd')"
      "set nd' = set nd1 \<union> product_classes A B" by auto
  have "product_classes A (k # B) = {a \<inter> k | a. a \<in> set A \<and> 1 < card (a \<inter> k)} \<union> product_classes A B"
    by (auto simp: product_classes_def)
  then show ?case using nd' nd1 r S1 by auto
qed

lemma set_intersection:
  assumes "iter_ok py" "\<forall>c\<in>set A. finite c" "pairwise_disjoint A" "\<forall>c\<in>set B. finite c"
  shows "set (intersection py A B) = product_classes A B"
proof -
  obtain nd' where "fold (intersect_class py (assign_blocks py A)) B (\<lambda>i. {}, []) = (\<lambda>i. {}, nd')"
    "set nd' = product_classes A B"
    using fold_intersect_class[OF assms, of "[]"] by auto
  then show ?thesis by (simp add: intersection_def)
qed

lemma product_classes_sub: "product_classes A B \<subseteq> product_classes B A"
proof
  fix c assume "c \<in> product_classes A B"
  then obtain a b where "c = a \<inter> b" "a \<in> set A" "b \<in> set B" "1 < card (a \<inter> b)"
    unfolding product_classes_def by blast
  then have "c = b \<inter> a" "b \<in> set B" "a \<in> set A" "1 < card (b \<inter> a)"
    by (simp_all add: Int_commute)
  then show "c \<in> product_classes B A" unfolding product_classes_def by blast
qed

lemma product_classes_commute: "product_classes A B = product_classes B A"
  by (simp add: product_classes_sub subset_antisym)




section \<open>Loops\<close>

lemma foldE_append:
  "foldE f (xs @ ys) s = (case foldE f xs s of Inl e \<Rightarrow> Inl e | Inr s' \<Rightarrow> foldE f ys s')"
  by (induction xs arbitrary: s) (auto split: sum.splits)

text \<open>Partial correctness: an invariant indexed by the elements already processed.\<close>

lemma foldE_invariant:
  assumes run: "foldE f xs s = Inr s'"
    and init: "I [] s"
    and step: "\<And>pre x post t t'. xs = pre @ x # post \<Longrightarrow> I pre t \<Longrightarrow> f x t = Inr t' \<Longrightarrow> I (pre @ [x]) t'"
  shows "I xs s'"
proof -
  have "\<And>pre s. xs = pre @ ys \<Longrightarrow> I pre s \<Longrightarrow> foldE f ys s = Inr s' \<Longrightarrow> I xs s'" for ys
  proof (induction ys)
    case Nil
    then show ?case by simp
  next
    case (Cons y ys)
    from Cons.prems(3) obtain t where t: "f y s = Inr t" "foldE f ys t = Inr s'"
      by (auto split: sum.splits)
    have "I (pre @ [y]) t" using step[OF Cons.prems(1) Cons.prems(2) t(1)] .
    then show ?case using Cons.IH[of "pre @ [y]" t] Cons.prems(1) t(2) by simp
  qed
  from this[of "[]" xs s] init run show ?thesis by simp
qed

text \<open>Total correctness: every step succeeds under the invariant, so the loop does.\<close>

lemma foldE_total:
  assumes init: "I [] s"
    and step: "\<And>pre x post t. xs = pre @ x # post \<Longrightarrow> I pre t \<Longrightarrow> \<exists>t'. f x t = Inr t' \<and> I (pre @ [x]) t'"
  shows "\<exists>s'. foldE f xs s = Inr s' \<and> I xs s'"
proof -
  have "\<And>pre s. xs = pre @ ys \<Longrightarrow> I pre s \<Longrightarrow> \<exists>s'. foldE f ys s = Inr s' \<and> I xs s'" for ys
  proof (induction ys)
    case Nil
    then show ?case by simp
  next
    case (Cons y ys)
    from step[OF Cons.prems(1) Cons.prems(2)] obtain t where t: "f y s = Inr t" "I (pre @ [y]) t"
      by blast
    from Cons.IH[of "pre @ [y]" t] Cons.prems(1) t(2)
    obtain s' where "foldE f ys t = Inr s'" "I xs s'" by auto
    then show ?case using t(1) by simp
  qed
  from this[of "[]" xs s] init show ?thesis by simp
qed

lemma foldE_set_remove:
  "distinct xs \<Longrightarrow> set xs \<subseteq> S \<Longrightarrow> foldE set_remove xs S = Inr (S - set xs)"
proof (induction xs arbitrary: S)
  case Nil
  then show ?case by simp
next
  case (Cons x xs)
  have "foldE set_remove xs (S - {x}) = Inr (S - {x} - set xs)"
    using Cons.prems by (intro Cons.IH) auto
  moreover have "S - {x} - set xs = S - set (x # xs)" by auto
  moreover have "set_remove x S = Inr (S - {x})" using Cons.prems by (simp add: set_remove_def)
  ultimately show ?case by simp
qed

section \<open>Tuples\<close>

abbreviation increasing :: "attset \<Rightarrow> bool" where
  "increasing X \<equiv> sorted_wrt (<) X"

lemma length_del_pos: "i < length X \<Longrightarrow> length (del_pos i X) = length X - 1"
  by (simp add: del_pos_def)

lemma set_del_pos: "distinct X \<Longrightarrow> i < length X \<Longrightarrow> set (del_pos i X) = set X - {X ! i}"
proof -
  assume d: "distinct X" and i: "i < length X"
  have X: "X = take i X @ X ! i # drop (Suc i) X" using i by (simp add: id_take_nth_drop)
  have "distinct (take i X @ X ! i # drop (Suc i) X)" using d X by simp
  then have "X ! i \<notin> set (take i X)" "X ! i \<notin> set (drop (Suc i) X)" by auto
  moreover have "set X = set (take i X @ X ! i # drop (Suc i) X)"
    using X by simp
  then have "set X = set (take i X) \<union> {X ! i} \<union> set (drop (Suc i) X)"
    by simp
  ultimately show ?thesis unfolding del_pos_def set_append by blast
qed

lemma increasing_del_pos: "increasing X \<Longrightarrow> increasing (del_pos i X)"
proof -
  assume s: "increasing X"
  have a: "increasing (take i X)" using s by (simp add: sorted_wrt_take)
  have b: "increasing (drop (Suc i) X)" using s by (simp add: sorted_wrt_drop)
  have "\<forall>x\<in>set (take i X). \<forall>y\<in>set (drop i X). x < y"
    using s sorted_wrt_append[of "(<)" "take i X" "drop i X"] by simp
  moreover have "set (drop (Suc i) X) \<subseteq> set (drop i X)" by (simp add: set_drop_subset_set_drop)
  ultimately have "\<forall>x\<in>set (take i X). \<forall>y\<in>set (drop (Suc i) X). x < y" by blast
  then show ?thesis using a b unfolding del_pos_def sorted_wrt_append by blast
qed

lemma increasing_distinct: "increasing X \<Longrightarrow> distinct X"
  by (simp add: strict_sorted_iff)

lemma index_Inr: "index X y = Inr a \<Longrightarrow> a < length X \<and> X ! a = y"
proof (induction X arbitrary: a)
  case Nil
  then show ?case by simp
next
  case (Cons x X)
  show ?case
  proof (cases "x = y")
    case True
    then show ?thesis using Cons.prems by simp
  next
    case False
    then obtain b where b: "index X y = Inr b" "a = Suc b"
      using Cons.prems by (cases "index X y") auto
    from Cons.IH[OF b(1)] b(2) show ?thesis by simp
  qed
qed

lemma index_mem: "y \<in> set X \<Longrightarrow> \<exists>a. index X y = Inr a"
  by (induction X) auto

lemma reduce_intersection_ne: "vs \<noteq> [] \<Longrightarrow> reduce_intersection vs = Inr (\<Inter>(set vs))"
proof -
  have "foldl (\<inter>) v ws = v \<inter> \<Inter>(set ws)" for v :: "nat set" and ws
    by (induction ws arbitrary: v) auto
  then show "vs \<noteq> [] \<Longrightarrow> reduce_intersection vs = Inr (\<Inter>(set vs))"
    by (cases vs) auto
qed



section \<open>What a read of Cplus returns\<close>

text \<open>
  \<open>cp d key\<close> is the set a read of \<open>Cplus[key]\<close> returns from the dict \<open>d\<close>: the stored
  entry, or the intersection of the reads of the immediate subsets.
\<close>

lemma length_subkeys: "k \<in> set (subkeys key) \<Longrightarrow> length k < length key"
  by (auto simp: subkeys_def del_pos_def)

function cp :: "(attset \<rightharpoonup> nat set) \<Rightarrow> attset \<Rightarrow> nat set" where
  "cp d key = (case d key of Some v \<Rightarrow> v | None \<Rightarrow> \<Inter>(set (map (cp d) (subkeys key))))"
  by pat_completeness auto
termination
  by (relation "measure (\<lambda>(d, key). length key)") (auto simp: length_subkeys)

declare cp.simps [simp del]

lemma cp_Some: "d key = Some v \<Longrightarrow> cp d key = v"
  by (simp add: cp.simps)

lemma cp_None: "d key = None \<Longrightarrow> cp d key = (\<Inter>k\<in>set (subkeys key). cp d k)"
  by (simp add: cp.simps)

text \<open>\<open>d'\<close> holds the entries of \<open>d\<close> and, for other keys, what a read from \<open>d\<close> returns.\<close>

definition filled :: "(attset \<rightharpoonup> nat set) \<Rightarrow> (attset \<rightharpoonup> nat set) \<Rightarrow> bool" where
  "filled d d' \<longleftrightarrow> (\<forall>k v. d k = Some v \<longrightarrow> d' k = Some v) \<and> (\<forall>k v. d' k = Some v \<longrightarrow> v = cp d k)"

lemma filled_refl: "filled d d"
  by (auto simp: filled_def cp_Some)

lemma filled_cp: "filled d d' \<Longrightarrow> cp d' key = cp d key"
proof (induction key rule: length_induct)
  case (1 key)
  show ?case
  proof (cases "d' key")
    case (Some v)
    then show ?thesis using 1(2) by (simp add: filled_def cp_Some)
  next
    case None
    then have "d key = None" using 1(2) by (cases "d key") (auto simp: filled_def)
    moreover have "\<And>k. k \<in> set (subkeys key) \<Longrightarrow> cp d' k = cp d k"
      using 1 length_subkeys by blast
    ultimately show ?thesis using None by (simp add: cp_None)
  qed
qed

lemma filled_trans: "filled d d' \<Longrightarrow> filled d' d'' \<Longrightarrow> filled d d''"
  using filled_cp[of d d'] by (auto simp: filled_def)

lemma filled_upd: "d key = None \<Longrightarrow> filled d (d(key \<mapsto> cp d key))"
  by (auto simp: filled_def cp_Some)

text \<open>
  A read succeeds once the empty tuple has its entry, returns \<open>cp\<close>, and only fills the
  dict. The keys it adds come from the key by deleting positions: they satisfy every
  property \<open>Q\<close> of the key that deleting a position keeps.
\<close>

definition read_ok ::
  "(attset \<Rightarrow> bool) \<Rightarrow> (attset \<rightharpoonup> nat set) \<Rightarrow> attset \<Rightarrow> error + nat set \<times> (attset \<rightharpoonup> nat set) \<Rightarrow> bool" where
  "read_ok Q d key r \<longleftrightarrow>
     (\<exists>d'. r = Inr (cp d key, d') \<and> filled d d' \<and> key \<in> dom d' \<and>
           (\<forall>k\<in>dom d'. k \<in> dom d \<or> (Q k \<and> length k \<le> length key)))"

lemma collect_reads:
  assumes f: "\<And>d k. [] \<in> dom d \<Longrightarrow> k \<in> set ks \<Longrightarrow> read_ok Q d k (f d k)"
    and e: "[] \<in> dom d" and len: "\<forall>k\<in>set ks. length k \<le> m"
  shows "\<exists>d'. collect f ks d = Inr (map (cp d) ks, d') \<and> filled d d' \<and> set ks \<subseteq> dom d' \<and>
           (\<forall>k\<in>dom d'. k \<in> dom d \<or> (Q k \<and> length k \<le> m))"
  using f e len
proof (induction ks arbitrary: d)
  case Nil
  then show ?case by (simp add: filled_refl)
next
  case (Cons k ks)
  from Cons.prems(1)[OF Cons.prems(2), of k] obtain d1 where
    d1: "f d k = Inr (cp d k, d1)" "filled d d1" "k \<in> dom d1"
      "\<forall>k'\<in>dom d1. k' \<in> dom d \<or> (Q k' \<and> length k' \<le> length k)"
    by (auto simp: read_ok_def)
  have e1: "[] \<in> dom d1" using d1(2) Cons.prems(2) by (auto simp: filled_def)
  from Cons.IH[OF _ e1] Cons.prems(1,3) obtain d2 where
    d2: "collect f ks d1 = Inr (map (cp d1) ks, d2)" "filled d1 d2" "set ks \<subseteq> dom d2"
      "\<forall>k\<in>dom d2. k \<in> dom d1 \<or> (Q k \<and> length k \<le> m)"
    by auto
  have "map (cp d1) ks = map (cp d) ks" using filled_cp[OF d1(2)] by simp
  moreover have "k \<in> dom d2" using d1(3) d2(2) by (auto simp: filled_def)
  moreover have "\<forall>k'\<in>dom d2. k' \<in> dom d \<or> (Q k' \<and> length k' \<le> m)"
  proof
    fix k' assume "k' \<in> dom d2"
    then consider "k' \<in> dom d1" | "Q k' \<and> length k' \<le> m" using d2(4) by blast
    then show "k' \<in> dom d \<or> (Q k' \<and> length k' \<le> m)"
    proof cases
      case 1
      then show ?thesis using d1(4) Cons.prems(3) by fastforce
    next
      case 2
      then show ?thesis by simp
    qed
  qed
  ultimately show ?case using d1(1) d2(1,3) filled_trans[OF d1(2) d2(2)] by simp
qed

lemma getitem_depth_ok:
  assumes Q: "\<And>k i. Q k \<Longrightarrow> i < length k \<Longrightarrow> Q (del_pos i k)"
  shows "length key = n \<Longrightarrow> [] \<in> dom d \<Longrightarrow> Q key \<Longrightarrow> read_ok Q d key (getitem_depth n d key)"
proof (induction n arbitrary: key d)
  case 0
  then obtain v where "d key = Some v" by auto
  then show ?case by (auto simp: read_ok_def cp_Some filled_refl)
next
  case (Suc n)
  show ?case
  proof (cases "d key")
    case (Some v)
    then show ?thesis by (auto simp: read_ok_def cp_Some filled_refl)
  next
    case None
    have sub: "\<And>k. k \<in> set (subkeys key) \<Longrightarrow> length k = n \<and> Q k"
      using Suc.prems Q by (auto simp: subkeys_def length_del_pos)
    have "\<And>d k. [] \<in> dom d \<Longrightarrow> k \<in> set (subkeys key) \<Longrightarrow> read_ok Q d k (getitem_depth n d k)"
      using Suc.IH sub by blast
    from collect_reads[of "subkeys key" Q "getitem_depth n" d n, OF this Suc.prems(2)] sub
    obtain d1 where d1: "collect (getitem_depth n) (subkeys key) d = Inr (map (cp d) (subkeys key), d1)"
      "filled d d1" "\<forall>k\<in>dom d1. k \<in> dom d \<or> (Q k \<and> length k \<le> n)"
      by auto
    have ne: "map (cp d) (subkeys key) \<noteq> []" using Suc.prems(1) by (auto simp: subkeys_def)
    have v: "\<Inter>(set (map (cp d) (subkeys key))) = cp d key" using None by (simp add: cp_None)
    have k1: "d1 key = None"
    proof (rule ccontr)
      assume "d1 key \<noteq> None"
      then have "key \<in> dom d1" by auto
      with d1(3) have "key \<in> dom d \<or> (Q key \<and> length key \<le> n)" by blast
      then show False using None Suc.prems(1) by auto
    qed
    have f: "filled d (d1(key \<mapsto> cp d key))"
      using filled_trans[OF d1(2) filled_upd[of d1 key, OF k1]] filled_cp[OF d1(2)] by simp
    have "\<forall>k\<in>dom (d1(key \<mapsto> cp d key)). k \<in> dom d \<or> (Q k \<and> length k \<le> length key)"
      using d1(3) Suc.prems(1,3) by auto
    then show ?thesis
      using None d1(1) reduce_intersection_ne[OF ne] v f
      by (simp add: read_ok_def)
  qed
qed

lemma rdict_getitem_ok:
  assumes "\<And>k i. Q k \<Longrightarrow> i < length k \<Longrightarrow> Q (del_pos i k)" "[] \<in> dom d" "Q key"
  shows "read_ok Q d key (rdict_getitem d key)"
  unfolding rdict_getitem_def using getitem_depth_ok[of Q key "length key" d] assms by blast



section \<open>compute_dependencies, one step and one node\<close>

lemma rdict_getitem_present: "d key = Some v \<Longrightarrow> rdict_getitem d key = Inr (v, d)"
  by (cases "length key") (simp_all add: rdict_getitem_def)

lemma Cplus_get_present: "Cplus s X = Some v \<Longrightarrow> Cplus_get s X = Inr (v, s)"
  by (simp add: Cplus_get_def rdict_getitem_present)

lemma cache_get_frame: "cache s' = cache s \<Longrightarrow> cache_get s' X = cache_get s X"
  by (simp add: cache_get_def)

lemma check_fd_frame: "cache s' = cache s \<Longrightarrow> T s' = T s \<Longrightarrow> check_fd s' X y = check_fd s X y"
  by (auto simp: check_fd_def cache_get_frame[of s' s] split: sum.splits)

lemma is_superkey_frame: "cache s' = cache s \<Longrightarrow> is_superkey s' X = is_superkey s X"
  by (simp add: is_superkey_def cache_get_frame[of s' s])

lemma restrict_Cplus_eq:
  assumes ok: "iter_ok py" and v: "Cplus s X = Some v" and fin: "finite v"
  shows "restrict_Cplus py X s =
           Inr (if eager_map py then s\<lparr>Cplus := (Cplus s)(X \<mapsto> v \<inter> set X)\<rparr> else s)"
proof (cases "eager_map py")
  case False
  then show ?thesis by (simp add: restrict_Cplus_def)
next
  case True
  have it: "set (iter py v) = v" "distinct (iter py v)" using ok fin by (simp_all add: iter_ok_def)
  have "foldE set_remove (filter (\<lambda>i. i \<notin> set X) (iter py v)) v
          = Inr (v - set (filter (\<lambda>i. i \<notin> set X) (iter py v)))"
    using it by (intro foldE_set_remove) auto
  moreover have "v - set (filter (\<lambda>i. i \<notin> set X) (iter py v)) = v \<inter> set X"
    using it by auto
  ultimately show ?thesis using True by (simp add: restrict_Cplus_def Cplus_get_present[OF v])
qed

definition step_result :: "interp \<Rightarrow> attset \<Rightarrow> nat \<Rightarrow> nat \<Rightarrow> bool \<Rightarrow> nat set \<Rightarrow> tane \<Rightarrow> tane" where
  "step_result py X y a b v s =
     (if b then s\<lparr>rules := rules s @ [(del_pos a X, y)],
                 Cplus := (Cplus s)(X \<mapsto> (if eager_map py then (v - {y}) \<inter> set X else v - {y}))\<rparr>
      else s)"

lemma dependency_step_eq:
  assumes ok: "iter_ok py" and a: "index X y = Inr a" and b: "check_fd s (del_pos a X) y = Inr b"
    and v: "Cplus s X = Some v" and y: "y \<in> v" and fin: "finite v"
  shows "dependency_step py X y s = Inr (step_result py X y a b v s)"
proof (cases b)
  case False
  then show ?thesis using a b by (simp add: dependency_step_def step_result_def)
next
  case True
  let ?s1 = "s\<lparr>rules := rules s @ [(del_pos a X, y)]\<rparr>"
  let ?s2 = "?s1\<lparr>Cplus := (Cplus ?s1)(X \<mapsto> v - {y})\<rparr>"
  have g: "Cplus_get ?s1 X = Inr (v, ?s1)" using v by (simp add: Cplus_get_present)
  have r: "set_remove y v = Inr (v - {y})" using y by (simp add: set_remove_def)
  have "restrict_Cplus py X ?s2 =
          Inr (if eager_map py then ?s2\<lparr>Cplus := (Cplus ?s2)(X \<mapsto> (v - {y}) \<inter> set X)\<rparr> else ?s2)"
    using fin by (intro restrict_Cplus_eq[OF ok]) simp_all
  then show ?thesis using True a b g r
    by (simp add: dependency_step_def step_result_def)
qed


lemma Cplus_get_ok:
  assumes "\<And>k i. Q k \<Longrightarrow> i < length k \<Longrightarrow> Q (del_pos i k)" "[] \<in> dom (Cplus s)" "Q key"
  shows "\<exists>d'. Cplus_get s key = Inr (cp (Cplus s) key, s\<lparr>Cplus := d'\<rparr>) \<and> filled (Cplus s) d' \<and>
           d' key = Some (cp (Cplus s) key) \<and>
           (\<forall>k\<in>dom d'. k \<in> dom (Cplus s) \<or> (Q k \<and> length k \<le> length key))"
proof -
  from rdict_getitem_ok[of Q "Cplus s" key, OF assms] obtain d' where
    d': "rdict_getitem (Cplus s) key = Inr (cp (Cplus s) key, d')" "filled (Cplus s) d'"
      "key \<in> dom d'" "\<forall>k\<in>dom d'. k \<in> dom (Cplus s) \<or> (Q k \<and> length k \<le> length key)"
    by (auto simp: read_ok_def)
  have "d' key = Some (cp (Cplus s) key)" using d'(2,3) by (auto simp: filled_def)
  then show ?thesis using d' by (auto simp: Cplus_get_def)
qed

text \<open>
  The state after the inner loop has processed the list \<open>ys\<close> of attributes, from the
  state whose dict is \<open>d1\<close> with the entry \<open>v0\<close> for \<open>X\<close>: \<open>pos\<close> gives the position of
  an attribute in \<open>X\<close> and \<open>test\<close> the answer of \<open>check_fd\<close>.
\<close>

definition node_result ::
  "interp \<Rightarrow> attset \<Rightarrow> tane \<Rightarrow> (attset \<rightharpoonup> nat set) \<Rightarrow> nat set \<Rightarrow> nat list \<Rightarrow> (nat \<Rightarrow> nat) \<Rightarrow> (nat \<Rightarrow> bool) \<Rightarrow> tane" where
  "node_result py X s d1 v0 ys pos test =
     s\<lparr>rules := rules s @ map (\<lambda>y. (del_pos (pos y) X, y)) (filter test ys),
       Cplus := (if filter test ys = [] then d1
                 else d1(X \<mapsto> (if eager_map py then (v0 - set (filter test ys)) \<inter> set X
                                else v0 - set (filter test ys))))\<rparr>"

lemma node_result_Nil: "node_result py X s d1 v0 [] pos test = s\<lparr>Cplus := d1\<rparr>"
  by (simp add: node_result_def)

lemma node_result_frame:
  "cache (node_result py X s d1 v0 ys pos test) = cache s"
  "T (node_result py X s d1 v0 ys pos test) = T s"
  "current_level (node_result py X s d1 v0 ys pos test) = current_level s"
  by (simp_all add: node_result_def)

lemma node_result_Cplus_X:
  "d1 X = Some v0 \<Longrightarrow>
   Cplus (node_result py X s d1 v0 ys pos test) X =
     Some (if filter test ys = [] then v0
           else if eager_map py then (v0 - set (filter test ys)) \<inter> set X
           else v0 - set (filter test ys))"
  by (simp add: node_result_def)

lemma node_result_step:
  assumes v0: "d1 X = Some v0" and y: "y \<in> v0" "y \<in> set X" "y \<notin> set pre"
  shows "step_result py X y (pos y) (test y)
           (the (Cplus (node_result py X s d1 v0 pre pos test) X))
           (node_result py X s d1 v0 pre pos test)
         = node_result py X s d1 v0 (pre @ [y]) pos test"
proof (cases "test y")
  case False
  then show ?thesis by (simp add: step_result_def node_result_def)
next
  case True
  have 1: "v0 - set (filter test pre) - {y} = v0 - set (filter test (pre @ [y]))"
    using True by auto
  have 2: "(v0 - set (filter test pre)) \<inter> set X - {y} = (v0 - set (filter test (pre @ [y]))) \<inter> set X"
    using True by auto
  have 3: "((v0 - set (filter test pre)) \<inter> set X - {y}) \<inter> set X = (v0 - set (filter test (pre @ [y]))) \<inter> set X"
    using True by auto
  have 4: "v0 - {y} = v0 - set (filter test (pre @ [y]))" if "filter test pre = []"
    using True that by auto
  have 5: "(v0 - {y}) \<inter> set X = (v0 - set (filter test (pre @ [y]))) \<inter> set X" if "filter test pre = []"
    using True that by auto
  show ?thesis
  proof (cases "filter test pre = []")
    case e: True
    show ?thesis
      using True e 4[OF e] 5[OF e] v0
      by (simp add: step_result_def node_result_def)
  next
    case ne: False
    show ?thesis
      using True ne 1 2 3 v0
      by (simp add: step_result_def node_result_def)
  qed
qed

lemma dependency_node_eq:
  assumes ok: "iter_ok py"
    and Q: "\<And>k i. Q k \<Longrightarrow> i < length k \<Longrightarrow> Q (del_pos i k)" and e: "[] \<in> dom (Cplus s)" and QX: "Q X"
    and fin: "finite (cp (Cplus s) X)"
    and pos: "\<And>y. y \<in> set X \<Longrightarrow> index X y = Inr (pos y)"
    and chk: "\<And>y. y \<in> set X \<Longrightarrow> y \<in> cp (Cplus s) X \<Longrightarrow> check_fd s (del_pos (pos y) X) y = Inr (test y)"
  shows "\<exists>d1. filled (Cplus s) d1 \<and> d1 X = Some (cp (Cplus s) X) \<and>
           (\<forall>k\<in>dom d1. k \<in> dom (Cplus s) \<or> (Q k \<and> length k \<le> length X)) \<and>
           dependency_node py X s =
             Inr (node_result py X s d1 (cp (Cplus s) X) (iter py (cp (Cplus s) X \<inter> set X)) pos test)"
proof -
  let ?v0 = "cp (Cplus s) X"
  let ?ys = "iter py (?v0 \<inter> set X)"
  from Cplus_get_ok[of Q s X, OF Q e QX] obtain d1 where
    d1: "Cplus_get s X = Inr (?v0, s\<lparr>Cplus := d1\<rparr>)" "filled (Cplus s) d1" "d1 X = Some ?v0"
      "\<forall>k\<in>dom d1. k \<in> dom (Cplus s) \<or> (Q k \<and> length k \<le> length X)"
    by blast
  have ys: "set ?ys = ?v0 \<inter> set X" "distinct ?ys" using ok by (simp_all add: iter_ok_def)
  let ?I = "\<lambda>pre t. t = node_result py X s d1 ?v0 pre pos test"
  have CX: "Cplus (node_result py X s d1 ?v0 pre pos test) X =
     Some (if filter test pre = [] then ?v0
           else if eager_map py then (?v0 - set (filter test pre)) \<inter> set X
           else ?v0 - set (filter test pre))" for pre
    using d1(3) by (rule node_result_Cplus_X)
  have ST: "y \<in> ?v0 \<Longrightarrow> y \<in> set X \<Longrightarrow> y \<notin> set pre \<Longrightarrow>
         step_result py X y (pos y) (test y)
           (the (Cplus (node_result py X s d1 ?v0 pre pos test) X))
           (node_result py X s d1 ?v0 pre pos test)
         = node_result py X s d1 ?v0 (pre @ [y]) pos test" for y pre
    using d1(3) by (rule node_result_step)
  have "\<exists>s'. foldE (dependency_step py X) ?ys (s\<lparr>Cplus := d1\<rparr>) = Inr s' \<and> ?I ?ys s'"
  proof (rule foldE_total)
    show "?I [] (s\<lparr>Cplus := d1\<rparr>)" by (simp add: node_result_Nil)
  next
    fix pre y post t
    assume split: "?ys = pre @ y # post" and t: "?I pre t"
    have y: "y \<in> ?v0" "y \<in> set X" "y \<notin> set pre"
      using ys split by (auto simp: distinct_append dest: arg_cong[where f=set])
    let ?vt = "the (Cplus t X)"
    have vt: "Cplus t X = Some ?vt" using t CX[of pre] by simp
    have yvt: "y \<in> ?vt" using t CX[of pre] y by auto
    have fvt: "finite ?vt" using t CX[of pre] fin by auto
    have c: "check_fd t (del_pos (pos y) X) y = Inr (test y)"
      using chk[OF y(2) y(1)] check_fd_frame[of t s] t node_result_frame by simp
    have "dependency_step py X y t = Inr (step_result py X y (pos y) (test y) ?vt t)"
      by (rule dependency_step_eq[OF ok pos[OF y(2)] c vt yvt fvt])
    then show "\<exists>t'. dependency_step py X y t = Inr t' \<and> ?I (pre @ [y]) t'"
      using ST[OF y] t by simp
  qed
  then show ?thesis using d1 by (auto simp: dependency_node_def)
qed



section \<open>The shape of the Cplus dict\<close>

definition tuple_ok :: "nat \<Rightarrow> attset \<Rightarrow> bool" where
  "tuple_ok n k \<longleftrightarrow> increasing k \<and> set k \<subseteq> {..<n}"

lemma tuple_ok_del_pos: "tuple_ok n k \<Longrightarrow> i < length k \<Longrightarrow> tuple_ok n (del_pos i k)"
  using set_del_pos[OF increasing_distinct, of k i] increasing_del_pos[of k i]
  by (auto simp: tuple_ok_def)

text \<open>
  The dict has the empty tuple, its keys are increasing tuples of attributes of length at
  most \<open>m\<close>, and its entries are sets of attributes.
\<close>

definition store_ok :: "nat \<Rightarrow> nat \<Rightarrow> (attset \<rightharpoonup> nat set) \<Rightarrow> bool" where
  "store_ok n m d \<longleftrightarrow>
     [] \<in> dom d \<and> (\<forall>k v. d k = Some v \<longrightarrow> tuple_ok n k \<and> length k \<le> m \<and> v \<subseteq> {..<n})"

lemma store_okD: "store_ok n m d \<Longrightarrow> d k = Some v \<Longrightarrow> tuple_ok n k \<and> length k \<le> m \<and> v \<subseteq> {..<n}"
  by (simp add: store_ok_def)

lemma store_ok_empty: "store_ok n m d \<Longrightarrow> [] \<in> dom d"
  by (simp add: store_ok_def)

lemma store_ok_mono: "store_ok n m d \<Longrightarrow> m \<le> m' \<Longrightarrow> store_ok n m' d"
  unfolding store_ok_def by (meson le_trans)

lemma subkeys_ne: "key \<noteq> [] \<Longrightarrow> del_pos 0 key \<in> set (subkeys key)"
proof -
  assume "key \<noteq> []"
  then have "0 \<in> set [0..<length key]" by simp
  then show ?thesis unfolding subkeys_def by (simp only: set_map image_eqI)
qed

lemma cp_subkey: "d key = None \<Longrightarrow> k \<in> set (subkeys key) \<Longrightarrow> cp d key \<subseteq> cp d k"
  by (simp add: cp_None INF_lower)

lemma cp_bounded: "store_ok n m d \<Longrightarrow> cp d key \<subseteq> {..<n}"
proof (induction key rule: length_induct)
  case (1 key)
  show ?case
  proof (cases "d key")
    case (Some v)
    then show ?thesis using store_okD[OF 1(2) Some] by (simp add: cp_Some)
  next
    case None
    then have "key \<noteq> []" using store_ok_empty[OF 1(2)] by auto
    then have k: "del_pos 0 key \<in> set (subkeys key)" by (rule subkeys_ne)
    have "length (del_pos 0 key) < length key" using k by (rule length_subkeys)
    with 1(1) have "store_ok n m d \<longrightarrow> cp d (del_pos 0 key) \<subseteq> {..<n}"
      by (elim allE[of _ "del_pos 0 key"]) simp
    then have "cp d (del_pos 0 key) \<subseteq> {..<n}" using 1(2) by simp
    moreover have "cp d key \<subseteq> cp d (del_pos 0 key)" using None k by (rule cp_subkey)
    ultimately show ?thesis by (rule order_trans[rotated])
  qed
qed

lemma cp_finite: "store_ok n m d \<Longrightarrow> finite (cp d key)"
  by (rule finite_subset[OF cp_bounded]) simp_all

lemma store_ok_filled:
  assumes "store_ok n m d" "filled d d1" "\<forall>k\<in>dom d1. k \<in> dom d \<or> (tuple_ok n k \<and> length k \<le> m)"
  shows "store_ok n m d1"
proof -
  have "[] \<in> dom d1" using store_ok_empty[OF assms(1)] assms(2) by (auto simp: filled_def)
  moreover have "tuple_ok n k \<and> length k \<le> m \<and> v \<subseteq> {..<n}" if v: "d1 k = Some v" for k v
  proof -
    have "v = cp d k" using assms(2) v by (auto simp: filled_def)
    then have "v \<subseteq> {..<n}" using cp_bounded[OF assms(1)] by simp
    moreover have "tuple_ok n k \<and> length k \<le> m"
    proof (cases "d k")
      case None
      then have "k \<notin> dom d" by auto
      moreover have "k \<in> dom d1" using v by auto
      ultimately show ?thesis using assms(3) by blast
    next
      case (Some w)
      then show ?thesis using store_okD[OF assms(1)] by blast
    qed
    ultimately show ?thesis by simp
  qed
  ultimately show ?thesis unfolding store_ok_def by blast
qed

lemma store_ok_upd:
  assumes "store_ok n m d" "d k = Some v" "v' \<subseteq> v"
  shows "store_ok n m (d(k \<mapsto> v'))"
proof -
  have "[] \<in> dom (d(k \<mapsto> v'))" using store_ok_empty[OF assms(1)] by auto
  moreover have "tuple_ok n k' \<and> length k' \<le> m \<and> w \<subseteq> {..<n}" if "(d(k \<mapsto> v')) k' = Some w" for k' w
  proof (cases "k' = k")
    case True
    then have "w = v'" using that by simp
    then show ?thesis using store_okD[OF assms(1,2)] assms(3) True by auto
  next
    case False
    then show ?thesis using store_okD[OF assms(1), of k' w] that by simp
  qed
  ultimately show ?thesis unfolding store_ok_def by blast
qed

lemma store_ok_node_result:
  assumes "store_ok n m d1" "d1 X = Some v0"
  shows "store_ok n m (Cplus (node_result py X s d1 v0 ys pos test))"
proof (cases "filter test ys = []")
  case True
  then show ?thesis using assms by (simp add: node_result_def)
next
  case False
  have "store_ok n m (d1(X \<mapsto> (if eager_map py then (v0 - set (filter test ys)) \<inter> set X
                                else v0 - set (filter test ys))))"
    by (rule store_ok_upd[OF assms(1,2)]) auto
  then show ?thesis using False by (simp add: node_result_def)
qed

section \<open>compute_dependencies as a loop over the nodes\<close>

definition pos_of :: "attset \<Rightarrow> nat \<Rightarrow> nat" where
  "pos_of X y = (case index X y of Inr a \<Rightarrow> a | Inl e \<Rightarrow> 0)"

definition fd_test :: "tane \<Rightarrow> attset \<Rightarrow> nat \<Rightarrow> bool" where
  "fd_test s X y = (case check_fd s (del_pos (pos_of X y) X) y of Inr b \<Rightarrow> b | Inl e \<Rightarrow> False)"

lemma pos_of_index: "y \<in> set X \<Longrightarrow> index X y = Inr (pos_of X y)"
  using index_mem[of y X] by (auto simp: pos_of_def)

lemma pos_of_less: "y \<in> set X \<Longrightarrow> pos_of X y < length X \<and> X ! pos_of X y = y"
  using pos_of_index index_Inr by blast

text \<open>
  The level is ready for \<open>compute_dependencies\<close> and \<open>prune\<close>: its sets are non-empty
  increasing tuples of attributes, and the cache holds their partitions and those of
  their immediate subsets.
\<close>

definition level_ready :: "nat \<Rightarrow> tane \<Rightarrow> attset set \<Rightarrow> bool" where
  "level_ready n s L \<longleftrightarrow>
     length (T s) = n \<and> finite L \<and>
     (\<forall>X\<in>L. tuple_ok n X \<and> X \<noteq> [] \<and> (\<exists>P. cache_get s X = Inr P) \<and>
        (\<forall>i<length X. 2 \<le> length X \<longrightarrow> (\<exists>P. cache_get s (del_pos i X) = Inr P)))"

lemma level_ready_frame:
  "level_ready n s L \<Longrightarrow> cache t = cache s \<Longrightarrow> T t = T s \<Longrightarrow> level_ready n t L"
  by (simp add: level_ready_def cache_get_frame[of t s])

lemma check_fd_ready:
  assumes "level_ready n s L" "X \<in> L" "y \<in> set X" "y < n"
  shows "check_fd s (del_pos (pos_of X y) X) y = Inr (fd_test s X y)"
proof -
  have p: "pos_of X y < length X" using pos_of_less[OF assms(3)] by simp
  have n: "y < length (T s)" using assms(1,4) by (simp add: level_ready_def)
  show ?thesis
  proof (cases "del_pos (pos_of X y) X = []")
    case True
    then show ?thesis by (simp add: fd_test_def check_fd_def)
  next
    case False
    then have "length (del_pos (pos_of X y) X) \<noteq> 0" by simp
    then have "2 \<le> length X" using length_del_pos[OF p] by arith
    then obtain P where "cache_get s (del_pos (pos_of X y) X) = Inr P"
      using assms(1,2) p by (auto simp: level_ready_def)
    then show ?thesis using False n by (simp add: fd_test_def check_fd_def)
  qed
qed

lemma compute_dependencies_rule:
  assumes ok: "iter_ok py" and rdy: "level_ready n s L" and st: "store_ok n m (Cplus s)"
    and lenL: "\<forall>X\<in>L. length X \<le> m"
    and J0: "J [] s"
    and Jstep: "\<And>pre X post t d1.
        iter_tuples py L = pre @ X # post \<Longrightarrow> J pre t \<Longrightarrow> store_ok n m (Cplus t) \<Longrightarrow>
        cache t = cache s \<Longrightarrow> T t = T s \<Longrightarrow> current_level t = current_level s \<Longrightarrow>
        filled (Cplus t) d1 \<Longrightarrow> d1 X = Some (cp (Cplus t) X) \<Longrightarrow>
        (\<forall>k\<in>dom d1. k \<in> dom (Cplus t) \<or> (tuple_ok n k \<and> length k \<le> length X)) \<Longrightarrow>
        J (pre @ [X]) (node_result py X t d1 (cp (Cplus t) X)
                         (iter py (cp (Cplus t) X \<inter> set X)) (pos_of X) (fd_test s X))"
  shows "\<exists>s'. compute_dependencies py L s = Inr s' \<and> J (iter_tuples py L) s' \<and>
           store_ok n m (Cplus s') \<and> cache s' = cache s \<and> T s' = T s \<and>
           current_level s' = current_level s"
proof -
  let ?Xs = "iter_tuples py L"
  have Xs: "set ?Xs = L" using ok rdy by (simp add: iter_ok_def level_ready_def)
  let ?I = "\<lambda>pre t. J pre t \<and> store_ok n m (Cplus t) \<and> cache t = cache s \<and> T t = T s \<and>
              current_level t = current_level s"
  have "\<exists>s'. foldE (dependency_node py) ?Xs s = Inr s' \<and> ?I ?Xs s'"
  proof (rule foldE_total)
    show "?I [] s" using J0 st by simp
  next
    fix pre X post t
    assume split: "?Xs = pre @ X # post" and I: "?I pre t"
    from I have Jp: "J pre t" and stt: "store_ok n m (Cplus t)" and ct: "cache t = cache s"
      and Tt: "T t = T s" and clt: "current_level t = current_level s" by simp_all
    have "X \<in> set ?Xs" unfolding split by simp
    then have XL: "X \<in> L" using Xs by simp
    have tX: "tuple_ok n X" using rdy XL by (simp add: level_ready_def)
    have e: "[] \<in> dom (Cplus t)" using stt by (rule store_ok_empty)
    have chk: "\<And>y. y \<in> set X \<Longrightarrow> y \<in> cp (Cplus t) X \<Longrightarrow>
        check_fd t (del_pos (pos_of X y) X) y = Inr (fd_test s X y)"
    proof -
      fix y assume y: "y \<in> set X" "y \<in> cp (Cplus t) X"
      have "y < n" using cp_bounded[OF stt, of X] y(2) by auto
      from check_fd_ready[OF rdy XL y(1) this] show "check_fd t (del_pos (pos_of X y) X) y = Inr (fd_test s X y)"
        using check_fd_frame[OF ct Tt] by simp
    qed
    from dependency_node_eq[of py "tuple_ok n" t X "pos_of X" "fd_test s X",
        OF ok tuple_ok_del_pos e tX cp_finite[OF stt] pos_of_index chk]
    obtain d1 where d1: "filled (Cplus t) d1" "d1 X = Some (cp (Cplus t) X)"
      "\<forall>k\<in>dom d1. k \<in> dom (Cplus t) \<or> (tuple_ok n k \<and> length k \<le> length X)"
      "dependency_node py X t = Inr (node_result py X t d1 (cp (Cplus t) X)
          (iter py (cp (Cplus t) X \<inter> set X)) (pos_of X) (fd_test s X))"
      by blast
    let ?t' = "node_result py X t d1 (cp (Cplus t) X) (iter py (cp (Cplus t) X \<inter> set X)) (pos_of X) (fd_test s X)"
    have "J (pre @ [X]) ?t'" by (rule Jstep[OF split Jp stt ct Tt clt d1(1,2,3)])
    moreover have "\<forall>k\<in>dom d1. k \<in> dom (Cplus t) \<or> (tuple_ok n k \<and> length k \<le> m)"
      using d1(3) lenL XL by (meson le_trans)
    then have "store_ok n m d1" by (rule store_ok_filled[OF stt d1(1)])
    then have "store_ok n m (Cplus ?t')" using d1(2) by (rule store_ok_node_result)
    ultimately show "\<exists>t'. dependency_node py X t = Inr t' \<and> ?I (pre @ [X]) t'"
      using d1(4) ct Tt clt by (simp add: node_result_frame)
  qed
  then show ?thesis by (simp add: compute_dependencies_def)
qed



section \<open>prune\<close>

text \<open>\<open>t\<close> is \<open>s\<close> with more keys of \<open>Cplus\<close> filled in, and nothing else changed but the rules.\<close>

definition fills :: "nat \<Rightarrow> nat \<Rightarrow> tane \<Rightarrow> tane \<Rightarrow> bool" where
  "fills n m s t \<longleftrightarrow>
     filled (Cplus s) (Cplus t) \<and>
     (\<forall>k\<in>dom (Cplus t). k \<in> dom (Cplus s) \<or> (tuple_ok n k \<and> length k \<le> m)) \<and>
     cache t = cache s \<and> T t = T s \<and> current_level t = current_level s"

lemma fills_refl: "fills n m s s"
  by (simp add: fills_def filled_refl)

lemma fills_trans:
  assumes "fills n m s t" "fills n m t u"
  shows "fills n m s u"
proof -
  have "filled (Cplus s) (Cplus u)" using assms filled_trans by (auto simp: fills_def)
  moreover have "\<forall>k\<in>dom (Cplus u). k \<in> dom (Cplus s) \<or> (tuple_ok n k \<and> length k \<le> m)"
    using assms unfolding fills_def by blast
  moreover have "cache u = cache s \<and> T u = T s \<and> current_level u = current_level s"
    using assms by (simp add: fills_def)
  ultimately show ?thesis by (simp add: fills_def)
qed

lemma fills_cp: "fills n m s t \<Longrightarrow> cp (Cplus t) = cp (Cplus s)"
  using filled_cp by (auto simp: fills_def)

lemma fills_store_ok: "fills n m s t \<Longrightarrow> store_ok n m (Cplus s) \<Longrightarrow> store_ok n m (Cplus t)"
  by (rule store_ok_filled[of n m "Cplus s"]) (simp_all add: fills_def)

lemma fills_rules: "fills n m s t \<Longrightarrow> fills n m s (t\<lparr>rules := r\<rparr>)"
  by (simp add: fills_def)

lemma Cplus_get_fills:
  assumes "store_ok n m (Cplus s)" "tuple_ok n X" "length X \<le> m"
  shows "\<exists>t. Cplus_get s X = Inr (cp (Cplus s) X, t) \<and> fills n m s t \<and> rules t = rules s \<and>
           Cplus t X = Some (cp (Cplus s) X)"
proof -
  from Cplus_get_ok[of "tuple_ok n" s X, OF tuple_ok_del_pos store_ok_empty[OF assms(1)] assms(2)]
  obtain d' where d': "Cplus_get s X = Inr (cp (Cplus s) X, s\<lparr>Cplus := d'\<rparr>)" "filled (Cplus s) d'"
    "d' X = Some (cp (Cplus s) X)"
    "\<forall>k\<in>dom d'. k \<in> dom (Cplus s) \<or> (tuple_ok n k \<and> length k \<le> length X)"
    by blast
  have "\<forall>k\<in>dom d'. k \<in> dom (Cplus s) \<or> (tuple_ok n k \<and> length k \<le> m)"
    using d'(4) assms(3) by (meson le_trans)
  then have "fills n m s (s\<lparr>Cplus := d'\<rparr>)" using d'(2) by (simp add: fills_def)
  then show ?thesis using d'(1,3) by auto
qed

text \<open>The sets that replace one attribute of \<open>X\<close> by \<open>y\<close>, as sorted tuples.\<close>

definition swap_keys :: "attset \<Rightarrow> nat \<Rightarrow> attset list" where
  "swap_keys X y = map (\<lambda>b. sort (del_pos b X @ [y])) [0..<length X]"

definition rule_cond :: "(attset \<rightharpoonup> nat set) \<Rightarrow> attset \<Rightarrow> nat \<Rightarrow> bool" where
  "rule_cond d X y \<longleftrightarrow> y \<in> (\<Inter>k\<in>set (swap_keys X y). cp d k)"

lemma increasing_sort: "distinct xs \<Longrightarrow> increasing (sort xs)"
  by (simp add: strict_sorted_iff)

lemma swap_keys_ok:
  assumes "tuple_ok n X" "y < n" "y \<notin> set X" "k \<in> set (swap_keys X y)"
  shows "tuple_ok n k \<and> length k = length X"
proof -
  from assms(4) obtain b where b: "b < length X" "k = sort (del_pos b X @ [y])"
    by (auto simp: swap_keys_def)
  have d: "distinct X" using assms(1) by (simp add: tuple_ok_def increasing_distinct)
  have s: "set (del_pos b X) = set X - {X ! b}" using set_del_pos[OF d b(1)] .
  have "distinct (del_pos b X)" using increasing_distinct[OF increasing_del_pos] assms(1)
    by (simp add: tuple_ok_def)
  then have "distinct (del_pos b X @ [y])" using s assms(3) by simp
  then have "increasing k" using b(2) increasing_sort by simp
  moreover have "set k \<subseteq> {..<n}" using b(2) s assms(1,2) by (auto simp: tuple_ok_def)
  moreover have "length k = length X" using b length_del_pos[OF b(1)] by simp
  ultimately show ?thesis by (simp add: tuple_ok_def)
qed

lemma superkey_rule_eq:
  assumes st: "store_ok n m (Cplus s)" and X: "tuple_ok n X" "X \<noteq> []" "length X \<le> m"
    and y: "y < n" "y \<notin> set X"
  shows "\<exists>t. superkey_rule X y s = Inr (t\<lparr>rules := rules s @ (if rule_cond (Cplus s) X y then [(X, y)] else [])\<rparr>)
           \<and> fills n m s t"
proof -
  let ?ks = "swap_keys X y"
  have ks: "\<And>k. k \<in> set ?ks \<Longrightarrow> tuple_ok n k \<and> length k = length X"
    using swap_keys_ok[OF X(1) y] by blast
  have rd: "\<And>d k. [] \<in> dom d \<Longrightarrow> k \<in> set ?ks \<Longrightarrow> read_ok (tuple_ok n) d k (rdict_getitem d k)"
    using rdict_getitem_ok[of "tuple_ok n", OF tuple_ok_del_pos] ks by blast
  have len: "\<forall>k\<in>set ?ks. length k \<le> m" using ks X(3) by simp
  from collect_reads[of ?ks "tuple_ok n" rdict_getitem "Cplus s" m, OF rd store_ok_empty[OF st] len]
  obtain d' where d': "collect rdict_getitem ?ks (Cplus s) = Inr (map (cp (Cplus s)) ?ks, d')"
    "filled (Cplus s) d'" "\<forall>k\<in>dom d'. k \<in> dom (Cplus s) \<or> (tuple_ok n k \<and> length k \<le> m)"
    by blast
  have ne: "map (cp (Cplus s)) ?ks \<noteq> []" using X(2) by (simp add: swap_keys_def)
  have r: "reduce_intersection (map (cp (Cplus s)) ?ks) = Inr (\<Inter>k\<in>set ?ks. cp (Cplus s) k)"
    using reduce_intersection_ne[OF ne] by simp
  have f: "fills n m s (s\<lparr>Cplus := d'\<rparr>)" using d'(2,3) by (simp add: fills_def)
  have "superkey_rule X y s =
      Inr ((s\<lparr>Cplus := d'\<rparr>)\<lparr>rules := rules s @ (if rule_cond (Cplus s) X y then [(X, y)] else [])\<rparr>)"
    using d'(1) r unfolding superkey_rule_def swap_keys_def[symmetric] rule_cond_def
    by simp
  then show ?thesis using f by blast
qed

definition prune_rules :: "interp \<Rightarrow> (attset \<rightharpoonup> nat set) \<Rightarrow> attset \<Rightarrow> (attset \<times> nat) list" where
  "prune_rules py d X =
     map (Pair X) (filter (rule_cond d X) (filter (\<lambda>x. x \<notin> set X) (iter py (cp d X))))"

lemma superkey_loop:
  assumes st: "store_ok n m (Cplus s)" and X: "tuple_ok n X" "X \<noteq> []" "length X \<le> m"
    and ys: "\<forall>y\<in>set ys. y < n \<and> y \<notin> set X"
  shows "\<exists>t. foldE (superkey_rule X) ys s = Inr (t\<lparr>rules := rules s @ map (Pair X) (filter (rule_cond (Cplus s) X) ys)\<rparr>)
           \<and> fills n m s t"
proof -
  let ?I = "\<lambda>pre u. \<exists>t. u = t\<lparr>rules := rules s @ map (Pair X) (filter (rule_cond (Cplus s) X) pre)\<rparr> \<and> fills n m s t"
  have "\<exists>u. foldE (superkey_rule X) ys s = Inr u \<and> ?I ys u"
  proof (rule foldE_total)
    have "s = s\<lparr>rules := rules s @ map (Pair X) (filter (rule_cond (Cplus s) X) [])\<rparr>" by simp
    then show "?I [] s" using fills_refl by blast
  next
    fix pre y post u
    assume split: "ys = pre @ y # post" and I: "?I pre u"
    then obtain t where t: "u = t\<lparr>rules := rules s @ map (Pair X) (filter (rule_cond (Cplus s) X) pre)\<rparr>"
      "fills n m s t" by blast
    have fu: "fills n m s u" using t fills_rules by simp
    have stu: "store_ok n m (Cplus u)" using fills_store_ok[OF fu st] .
    have y: "y < n" "y \<notin> set X" using ys split by auto
    from superkey_rule_eq[OF stu X y] obtain t' where
      t': "superkey_rule X y u = Inr (t'\<lparr>rules := rules u @ (if rule_cond (Cplus u) X y then [(X, y)] else [])\<rparr>)"
      "fills n m u t'" by blast
    have c: "rule_cond (Cplus u) X y = rule_cond (Cplus s) X y"
      using fills_cp[OF fu] by (simp add: rule_cond_def)
    have "rules u @ (if rule_cond (Cplus u) X y then [(X, y)] else [])
        = rules s @ map (Pair X) (filter (rule_cond (Cplus s) X) (pre @ [y]))"
      using t(1) c by simp
    then show "\<exists>u'. superkey_rule X y u = Inr u' \<and> ?I (pre @ [y]) u'"
      using t' fills_trans[OF fu t'(2)] by auto
  qed
  then show ?thesis by blast
qed


lemma is_superkey_eq: "cache_get s X = Inr P \<Longrightarrow> is_superkey s X = Inr (P = [])"
  by (simp add: is_superkey_def)

lemma rule_cond_cp: "cp d' = cp d \<Longrightarrow> rule_cond d' = rule_cond d"
proof -
  assume "cp d' = cp d"
  then have "rule_cond d' X y = rule_cond d X y" for X y unfolding rule_cond_def by simp
  then show ?thesis by (intro ext)
qed

lemma prune_rules_cp: "cp d' = cp d \<Longrightarrow> prune_rules py d' X = prune_rules py d X"
proof -
  assume a: "cp d' = cp d"
  show ?thesis unfolding prune_rules_def rule_cond_cp[OF a] a ..
qed

lemma prune_node_eq:
  assumes ok: "iter_ok py" and st: "store_ok n m (Cplus s)"
    and X: "tuple_ok n X" "X \<noteq> []" "length X \<le> m" and c: "cache_get s X = Inr P"
  shows "\<exists>t. prune_node py X (s, clean_idx) =
              Inr (t\<lparr>rules := rules s @ (if P = [] then prune_rules py (Cplus s) X else [])\<rparr>,
                   if P = [] \<or> cp (Cplus s) X = {} then insert X clean_idx else clean_idx)
           \<and> fills n m s t"
proof -
  let ?v = "cp (Cplus s) X"
  from Cplus_get_fills[OF st X(1,3)] obtain s1 where
    s1: "Cplus_get s X = Inr (?v, s1)" "fills n m s s1" "rules s1 = rules s" "Cplus s1 X = Some ?v"
    by blast
  have c1: "cache_get s1 X = Inr P" using c s1(2) cache_get_frame[of s1 s] by (simp add: fills_def)
  have sk: "is_superkey s1 X = Inr (P = [])" using c1 by (rule is_superkey_eq)
  show ?thesis
  proof (cases "P = []")
    case False
    have "s1 = s1\<lparr>rules := rules s @ []\<rparr>" using s1(3) by simp
    then have "\<exists>t. s1 = t\<lparr>rules := rules s @ []\<rparr> \<and> fills n m s t" using s1(2) by blast
    then show ?thesis using False s1(1) sk by (auto simp: prune_node_def)
  next
    case True
    have st1: "store_ok n m (Cplus s1)" using fills_store_ok[OF s1(2) st] .
    let ?ys = "filter (\<lambda>x. x \<notin> set X) (iter py ?v)"
    have fin: "finite ?v" using cp_finite[OF st] .
    have "set (iter py ?v) = ?v" using ok fin by (simp add: iter_ok_def)
    then have ys: "\<forall>y\<in>set ?ys. y < n \<and> y \<notin> set X" using cp_bounded[OF st, of X] by auto
    from superkey_loop[OF st1 X ys] obtain t where
      t: "foldE (superkey_rule X) ?ys s1 =
            Inr (t\<lparr>rules := rules s1 @ map (Pair X) (filter (rule_cond (Cplus s1) X) ?ys)\<rparr>)"
        "fills n m s1 t" by blast
    have "rule_cond (Cplus s1) = rule_cond (Cplus s)" using fills_cp[OF s1(2)] by (rule rule_cond_cp)
    then have r: "rules s1 @ map (Pair X) (filter (rule_cond (Cplus s1) X) ?ys)
        = rules s @ prune_rules py (Cplus s) X"
      using s1(3) by (simp add: prune_rules_def)
    have g: "Cplus_get s1 X = Inr (?v, s1)" using s1(4) by (rule Cplus_get_present)
    have "prune_node py X (s, clean_idx) =
        Inr (t\<lparr>rules := rules s @ prune_rules py (Cplus s) X\<rparr>, insert X clean_idx)"
      using s1(1) sk True g t(1) r by (simp add: prune_node_def)
    then show ?thesis using True fills_trans[OF s1(2) t(2)] by auto
  qed
qed

definition sk :: "tane \<Rightarrow> attset \<Rightarrow> bool" where
  "sk s X \<longleftrightarrow> cache_get s X = Inr []"

definition level_rules :: "interp \<Rightarrow> tane \<Rightarrow> attset list \<Rightarrow> (attset \<times> nat) list" where
  "level_rules py s Xs = concat (map (\<lambda>X. if sk s X then prune_rules py (Cplus s) X else []) Xs)"

lemma prune_eq:
  assumes ok: "iter_ok py" and rdy: "level_ready n s L" and st: "store_ok n m (Cplus s)"
    and lenL: "\<forall>X\<in>L. length X \<le> m"
  shows "\<exists>t. prune py L s =
              Inr (t\<lparr>rules := rules s @ level_rules py s (iter_tuples py L)\<rparr>,
                   {X \<in> L. \<not> sk s X \<and> cp (Cplus s) X \<noteq> {}})
           \<and> fills n m s t"
proof -
  let ?Xs = "iter_tuples py L"
  have finL: "finite L" using rdy by (simp add: level_ready_def)
  have Xs: "set ?Xs = L" using ok finL by (simp add: iter_ok_def)
  let ?dead = "\<lambda>pre. {X \<in> set pre. sk s X \<or> cp (Cplus s) X = {}}"
  let ?I = "\<lambda>pre uc. \<exists>t. fst uc = t\<lparr>rules := rules s @ level_rules py s pre\<rparr> \<and> fills n m s t \<and>
                snd uc = ?dead pre"
  have "\<exists>uc. foldE (prune_node py) ?Xs (s, {}) = Inr uc \<and> ?I ?Xs uc"
  proof (rule foldE_total)
    have "s = s\<lparr>rules := rules s @ level_rules py s []\<rparr>" by (simp add: level_rules_def)
    then show "?I [] (s, {})" using fills_refl by fastforce
  next
    fix pre X post uc
    assume split: "?Xs = pre @ X # post" and I: "?I pre uc"
    obtain u cl where uc: "uc = (u, cl)" by (cases uc)
    from I uc obtain t where t: "u = t\<lparr>rules := rules s @ level_rules py s pre\<rparr>" "fills n m s t"
      and cl: "cl = ?dead pre" by auto
    have "X \<in> set ?Xs" unfolding split by simp
    then have XL: "X \<in> L" using Xs by simp
    have fu: "fills n m s u" using t fills_rules by simp
    have stu: "store_ok n m (Cplus u)" using fills_store_ok[OF fu st] .
    have X: "tuple_ok n X" "X \<noteq> []" "length X \<le> m" using rdy XL lenL by (simp_all add: level_ready_def)
    obtain P where P: "cache_get s X = Inr P" using rdy XL by (auto simp: level_ready_def)
    have Pu: "cache_get u X = Inr P" using P fu cache_get_frame[of u s] by (simp add: fills_def)
    from prune_node_eq[OF ok stu X Pu, of cl] obtain t' where
      t': "prune_node py X (u, cl) =
              Inr (t'\<lparr>rules := rules u @ (if P = [] then prune_rules py (Cplus u) X else [])\<rparr>,
                   if P = [] \<or> cp (Cplus u) X = {} then insert X cl else cl)"
        "fills n m u t'" by blast
    have cpu: "cp (Cplus u) = cp (Cplus s)" using fills_cp[OF fu] .
    have skX: "sk s X \<longleftrightarrow> P = []" using P by (simp add: sk_def)
    have r: "rules u @ (if P = [] then prune_rules py (Cplus u) X else [])
           = rules s @ level_rules py s (pre @ [X])"
      using t(1) skX prune_rules_cp[OF cpu, of py X] by (simp add: level_rules_def)
    have d: "(if P = [] \<or> cp (Cplus u) X = {} then insert X cl else cl) = ?dead (pre @ [X])"
      using cl skX cpu by auto
    have "?I (pre @ [X]) (t'\<lparr>rules := rules s @ level_rules py s (pre @ [X])\<rparr>, ?dead (pre @ [X]))"
      using fills_trans[OF fu t'(2)] by auto
    then show "\<exists>uc'. prune_node py X uc = Inr uc' \<and> ?I (pre @ [X]) uc'"
      using t'(1) r d uc by simp
  qed
  then obtain t where t: "foldE (prune_node py) ?Xs (s, {}) =
      Inr (t\<lparr>rules := rules s @ level_rules py s ?Xs\<rparr>, ?dead ?Xs)" "fills n m s t"
    by (metis prod.collapse)
  have fd: "finite (?dead ?Xs)" by simp
  have "set (iter_tuples py (?dead ?Xs)) = ?dead ?Xs" "distinct (iter_tuples py (?dead ?Xs))"
    using ok fd by (simp_all add: iter_ok_def)
  then have "foldE set_remove (iter_tuples py (?dead ?Xs)) L = Inr (L - ?dead ?Xs)"
    using foldE_set_remove[of "iter_tuples py (?dead ?Xs)" L] Xs by auto
  moreover have "L - ?dead ?Xs = {X \<in> L. \<not> sk s X \<and> cp (Cplus s) X \<noteq> {}}" using Xs by auto
  ultimately show ?thesis using t by (auto simp: prune_def)
qed



section \<open>generate_next_level: blocks and pairs\<close>

lemma foldE_concat: "foldE (\<lambda>k. foldE f (g k)) ks s = foldE f (concat (map g ks)) s"
proof (induction ks arbitrary: s)
  case Nil
  then show ?case by simp
next
  case (Cons k ks)
  show ?case
  proof (cases "foldE f (g k) s")
    case (Inl e)
    then show ?thesis by (simp add: foldE_append)
  next
    case (Inr t)
    then show ?thesis using Cons[of t] by (simp add: foldE_append)
  qed
qed

lemma combinations2_subset: "(i, j) \<in> set (combinations2 ys) \<Longrightarrow> i \<in> set ys \<and> j \<in> set ys"
  by (induction ys) auto

lemma combinations2_distinct: "distinct ys \<Longrightarrow> (i, j) \<in> set (combinations2 ys) \<Longrightarrow> i \<noteq> j"
proof (induction ys)
  case Nil
  then show ?case by simp
next
  case (Cons y ys)
  from Cons.prems(2) consider "i = y \<and> j \<in> set ys" | "(i, j) \<in> set (combinations2 ys)" by auto
  then show ?case
  proof cases
    case 1
    then show ?thesis using Cons.prems(1) by auto
  next
    case 2
    then show ?thesis using Cons by simp
  qed
qed

lemma combinations2_complete:
  "i \<in> set ys \<Longrightarrow> j \<in> set ys \<Longrightarrow> i \<noteq> j \<Longrightarrow>
   (i, j) \<in> set (combinations2 ys) \<or> (j, i) \<in> set (combinations2 ys)"
  by (induction ys) auto

lemma map_of_add_block:
  "map_of (add_block x bs) =
     (map_of bs)(butlast x \<mapsto> (case map_of bs (butlast x) of None \<Rightarrow> [x] | Some b \<Rightarrow> b @ [x]))"
proof (induction bs)
  case Nil
  then show ?case by simp
next
  case (Cons kb bs)
  obtain k b where kb: "kb = (k, b)" by (cases kb)
  show ?case
  proof (cases "k = butlast x")
    case True
    then show ?thesis using kb by (auto simp: fun_eq_iff)
  next
    case False
    then show ?thesis using kb Cons by (auto simp: fun_eq_iff)
  qed
qed

lemma keys_add_block: "fst ` set (add_block x bs) = insert (butlast x) (fst ` set bs)"
proof (induction bs)
  case Nil
  then show ?case by simp
next
  case (Cons kb bs)
  obtain k b where kb: "kb = (k, b)" by (cases kb)
  show ?case
  proof (cases "k = butlast x")
    case True
    then show ?thesis using kb by auto
  next
    case False
    then show ?thesis using kb Cons by auto
  qed
qed

lemma distinct_add_block: "distinct (map fst bs) \<Longrightarrow> distinct (map fst (add_block x bs))"
proof (induction bs)
  case Nil
  then show ?case by simp
next
  case (Cons kb bs)
  obtain k b where kb: "kb = (k, b)" by (cases kb)
  show ?case
  proof (cases "k = butlast x")
    case True
    then show ?thesis using kb Cons.prems by simp
  next
    case False
    have "k \<notin> fst ` set (add_block x bs)" using keys_add_block[of x bs] False kb Cons.prems by auto
    then show ?thesis using kb Cons False by simp
  qed
qed

lemma fold_add_block_snoc: "fold add_block (xs @ [x]) bs = add_block x (fold add_block xs bs)"
  by simp

lemma blocks_spec:
  "distinct (map fst (fold add_block xs [])) \<and>
   fst ` set (fold add_block xs []) = butlast ` set xs \<and>
   map_of (fold add_block xs []) =
     (\<lambda>k. if k \<in> butlast ` set xs then Some (filter (\<lambda>x. butlast x = k) xs) else None)"
proof (induction xs rule: rev_induct)
  case Nil
  then show ?case by simp
next
  case (snoc x xs)
  let ?bs = "fold add_block xs []"
  have 1: "distinct (map fst (add_block x ?bs))" using snoc distinct_add_block by blast
  have 2: "fst ` set (add_block x ?bs) = butlast ` set (xs @ [x])"
    using snoc keys_add_block[of x ?bs] by auto
  have m: "map_of ?bs k = (if k \<in> butlast ` set xs then Some (filter (\<lambda>x. butlast x = k) xs) else None)" for k
    using snoc by simp
  have "map_of (add_block x ?bs) k =
     (if k \<in> butlast ` set (xs @ [x]) then Some (filter (\<lambda>x. butlast x = k) (xs @ [x])) else None)" for k
  proof (cases "k = butlast x")
    case True
    show ?thesis
    proof (cases "butlast x \<in> butlast ` set xs")
      case in_xs: True
      then show ?thesis using True m[of "butlast x"] by (simp add: map_of_add_block)
    next
      case False
      then have "\<And>y. y \<in> set xs \<Longrightarrow> butlast y \<noteq> butlast x" by (metis imageI)
      then have "filter (\<lambda>y. butlast y = butlast x) xs = []"
        by (simp add: filter_empty_conv)
      then show ?thesis using True False m[of "butlast x"] by (simp add: map_of_add_block)
    qed
  next
    case False
    then show ?thesis using m[of k] by (auto simp: map_of_add_block)
  qed
  then have 3: "map_of (add_block x ?bs) =
     (\<lambda>k. if k \<in> butlast ` set (xs @ [x]) then Some (filter (\<lambda>x. butlast x = k) (xs @ [x])) else None)"
    by (intro ext)
  show ?case unfolding fold_add_block_snoc by (intro conjI 1 2 3)
qed

lemma assoc_single:
  "distinct (map fst bs) \<Longrightarrow> map_of bs k = Some b \<Longrightarrow> map snd (filter (\<lambda>kb. fst kb = k) bs) = [b]"
proof (induction bs)
  case Nil
  then show ?case by simp
next
  case (Cons kb bs)
  obtain k' b' where kb: "kb = (k', b')" by (cases kb)
  show ?case
  proof (cases "k' = k")
    case True
    then have "b' = b" using Cons.prems kb by simp
    moreover have "filter (\<lambda>kb. fst kb = k) bs = []"
      using Cons.prems(1) kb True by (auto simp: filter_empty_conv)
    ultimately show ?thesis using kb True by simp
  next
    case False
    then show ?thesis using Cons kb by simp
  qed
qed

lemma prefix_blocks_eq:
  assumes ok: "iter_ok py" and fin: "finite L"
  shows "set (prefix_blocks py L) = (\<lambda>k. filter (\<lambda>x. butlast x = k) (iter_tuples py L)) ` (butlast ` L)"
proof -
  let ?xs = "iter_tuples py L"
  let ?bs = "fold add_block ?xs []"
  have xs: "set ?xs = L" using ok fin by (simp add: iter_ok_def)
  from blocks_spec[of ?xs] have d: "distinct (map fst ?bs)" and k: "fst ` set ?bs = butlast ` L"
    and m: "\<And>k. map_of ?bs k = (if k \<in> butlast ` L then Some (filter (\<lambda>x. butlast x = k) ?xs) else None)"
    using xs by simp_all
  have fk: "finite (set (map fst ?bs))" by simp
  have keys: "set (iter_tuples py (set (map fst ?bs))) = butlast ` L"
    using ok fk k by (simp add: iter_ok_def)
  have one: "map snd (filter (\<lambda>kb. fst kb = k) ?bs) = [filter (\<lambda>x. butlast x = k) ?xs]"
    if "k \<in> butlast ` L" for k
    using assoc_single[OF d, of k] m[of k] that by simp
  have "set (prefix_blocks py L) =
      (\<Union>k\<in>butlast ` L. set (map snd (filter (\<lambda>kb. fst kb = k) ?bs)))"
    unfolding prefix_blocks_def Let_def using keys by simp
  also have "\<dots> = (\<Union>k\<in>butlast ` L. {filter (\<lambda>x. butlast x = k) ?xs})"
    using one by simp
  also have "\<dots> = (\<lambda>k. filter (\<lambda>x. butlast x = k) ?xs) ` (butlast ` L)" by blast
  finally show ?thesis .
qed

text \<open>The pairs the generator forms: each two sets of a prefix block, once, in some order.\<close>

definition level_pairs :: "interp \<Rightarrow> attset set \<Rightarrow> (attset \<times> attset) list" where
  "level_pairs py L = concat (map combinations2 (prefix_blocks py L))"

lemma level_pairs_sound:
  assumes ok: "iter_ok py" and fin: "finite L" and p: "(i, j) \<in> set (level_pairs py L)"
  shows "i \<in> L \<and> j \<in> L \<and> i \<noteq> j \<and> butlast i = butlast j"
proof -
  have xs: "set (iter_tuples py L) = L" "distinct (iter_tuples py L)"
    using ok fin by (simp_all add: iter_ok_def)
  from p obtain blk where blk: "blk \<in> set (prefix_blocks py L)" "(i, j) \<in> set (combinations2 blk)"
    by (auto simp: level_pairs_def)
  have "blk \<in> (\<lambda>k. filter (\<lambda>x. butlast x = k) (iter_tuples py L)) ` (butlast ` L)"
    using blk(1) unfolding prefix_blocks_eq[OF ok fin] .
  then obtain k where k: "blk = filter (\<lambda>x. butlast x = k) (iter_tuples py L)"
    by (elim imageE)
  have "distinct blk" using k xs(2) by simp
  then have "i \<noteq> j" using blk(2) by (rule combinations2_distinct)
  moreover have "i \<in> set blk \<and> j \<in> set blk" using combinations2_subset[OF blk(2)] .
  ultimately show ?thesis using k xs(1) by auto
qed

lemma level_pairs_complete:
  assumes ok: "iter_ok py" and fin: "finite L"
    and ij: "i \<in> L" "j \<in> L" "i \<noteq> j" "butlast i = butlast j"
  shows "(i, j) \<in> set (level_pairs py L) \<or> (j, i) \<in> set (level_pairs py L)"
proof -
  have xs: "set (iter_tuples py L) = L" using ok fin by (simp add: iter_ok_def)
  let ?blk = "filter (\<lambda>x. butlast x = butlast i) (iter_tuples py L)"
  have b: "?blk \<in> set (prefix_blocks py L)" unfolding prefix_blocks_eq[OF ok fin] using ij(1) by (intro imageI)
  have "i \<in> set ?blk" "j \<in> set ?blk" using xs ij by simp_all
  from combinations2_complete[OF this ij(3)] b show ?thesis by (auto simp: level_pairs_def)
qed



section \<open>generate_next_level: the candidates\<close>

definition combine :: "attset \<Rightarrow> attset \<Rightarrow> attset" where
  "combine i j = (if last i < last j then i @ [last j] else j @ [last i])"

definition good :: "attset set \<Rightarrow> attset \<Rightarrow> bool" where
  "good L X \<longleftrightarrow> (\<forall>a<length X. del_pos a X \<in> L)"

lemma good_list_all: "list_all (\<lambda>a. del_pos a X \<in> L) [0..<length X] = good L X"
  by (auto simp: good_def list_all_iff)

lemma length_combine: "length i = l \<Longrightarrow> length j = l \<Longrightarrow> length (combine i j) = Suc l"
  by (simp add: combine_def)

lemma increasing_le_last: "increasing i \<Longrightarrow> x \<in> set i \<Longrightarrow> x \<le> last i"
proof -
  assume inc: "increasing i" and x: "x \<in> set i"
  then have ne: "i \<noteq> []" by auto
  then have i: "i = butlast i @ [last i]" by simp
  have "increasing (butlast i @ [last i])" using inc i by simp
  then have "\<forall>y\<in>set (butlast i). y < last i" unfolding sorted_wrt_append by simp
  moreover have "x \<in> set (butlast i) \<or> x = last i"
    using x i by (metis Un_iff empty_iff empty_set insert_iff list.simps(15) set_append)
  ultimately show ?thesis by auto
qed

lemma increasing_snoc: "increasing i \<Longrightarrow> i \<noteq> [] \<Longrightarrow> last i < y \<Longrightarrow> increasing (i @ [y])"
  unfolding sorted_wrt_append using increasing_le_last by fastforce

lemma tuple_ok_combine:
  assumes i: "tuple_ok n i" "i \<noteq> []" and j: "tuple_ok n j" "j \<noteq> []"
    and b: "butlast i = butlast j" and ne: "i \<noteq> j"
  shows "tuple_ok n (combine i j)"
proof (cases "last i < last j")
  case True
  have "last j \<in> set j" using j(2) by simp
  then have "last j < n" using j(1) by (auto simp: tuple_ok_def)
  moreover have "increasing (i @ [last j])" using increasing_snoc i True by (simp add: tuple_ok_def)
  ultimately show ?thesis using True i(1) by (simp add: combine_def tuple_ok_def)
next
  case False
  have "last i \<noteq> last j"
  proof
    assume "last i = last j"
    then have "butlast i @ [last i] = butlast j @ [last j]" using b by simp
    then show False using i(2) j(2) ne by simp
  qed
  then have lt: "last j < last i" using False by simp
  have "last i \<in> set i" using i(2) by simp
  then have "last i < n" using i(1) by (auto simp: tuple_ok_def)
  moreover have "increasing (j @ [last i])" using increasing_snoc j lt by (simp add: tuple_ok_def)
  ultimately show ?thesis using False j(1) by (simp add: combine_def tuple_ok_def)
qed

lemma del_pos_last: "length X = Suc l \<Longrightarrow> del_pos l X = butlast X"
  by (simp add: del_pos_def butlast_conv_take)

lemma del_pos_before_last:
  assumes "length X = Suc (Suc l)"
  shows "del_pos l X = butlast (butlast X) @ [last X]"
proof -
  have "drop (Suc l) X = [X ! Suc l]"
    using assms by (metis Cons_nth_drop_Suc drop_all lessI order_refl)
  moreover have "X \<noteq> []" using assms by auto
  then have "last X = X ! Suc l" using assms last_conv_nth[of X] by simp
  moreover have "butlast (butlast X) = take l X" using assms by (simp add: butlast_conv_take)
  ultimately show ?thesis by (simp add: del_pos_def)
qed

lemma parents_of:
  assumes X: "increasing X" "length X = Suc (Suc l)"
  shows "butlast (del_pos (Suc l) X) = butlast (del_pos l X)"
    and "del_pos (Suc l) X \<noteq> del_pos l X"
    and "combine (del_pos (Suc l) X) (del_pos l X) = X"
    and "combine (del_pos l X) (del_pos (Suc l) X) = X"
proof -
  let ?i = "del_pos (Suc l) X" and ?j = "del_pos l X"
  have i: "?i = butlast X" using del_pos_last[OF X(2)] .
  have j: "?j = butlast (butlast X) @ [last X]" using del_pos_before_last[OF X(2)] .
  have ne: "butlast X \<noteq> []" using X(2) by (cases X) auto
  have Xne: "X \<noteq> []" using X(2) by auto
  have li: "last ?i = X ! l" using i X(2) ne by (simp add: last_conv_nth nth_butlast)
  have lj: "last ?j = X ! Suc l" using j X(2) Xne by (simp add: last_conv_nth)
  have lt: "X ! l < X ! Suc l" using X sorted_wrt_nth_less[of "(<)" X l "Suc l"] by simp
  show b: "butlast ?i = butlast ?j" using i j by simp
  show "?i \<noteq> ?j" using li lj lt by auto
  have "?i @ [last ?j] = X" using i j Xne by simp
  then show "combine ?i ?j = X" "combine ?j ?i = X" using li lj lt by (simp_all add: combine_def)
qed

lemma next_level_set:
  assumes L: "\<forall>X\<in>L. tuple_ok n X \<and> length X = Suc l"
    and sound: "\<And>i j. (i, j) \<in> P \<Longrightarrow> i \<in> L \<and> j \<in> L \<and> i \<noteq> j \<and> butlast i = butlast j"
    and complete: "\<And>i j. i \<in> L \<Longrightarrow> j \<in> L \<Longrightarrow> i \<noteq> j \<Longrightarrow> butlast i = butlast j \<Longrightarrow> (i, j) \<in> P \<or> (j, i) \<in> P"
  shows "{combine i j | i j. (i, j) \<in> P \<and> good L (combine i j)}
       = {X. tuple_ok n X \<and> length X = Suc (Suc l) \<and> good L X}" (is "?A = ?B")
proof (rule set_eqI, rule iffI)
  fix X assume "X \<in> ?A"
  then obtain i j where ij: "X = combine i j" "(i, j) \<in> P" "good L X" by blast
  from sound[OF ij(2)] have s: "i \<in> L" "j \<in> L" "i \<noteq> j" "butlast i = butlast j" by simp_all
  have i: "tuple_ok n i" "length i = Suc l" and j: "tuple_ok n j" "length j = Suc l"
    using L s by simp_all
  have "i \<noteq> []" "j \<noteq> []" using i j by auto
  then have "tuple_ok n X" using tuple_ok_combine[OF i(1) _ j(1) _ s(4) s(3)] ij(1) by simp
  moreover have "length X = Suc (Suc l)" using length_combine[OF i(2) j(2)] ij(1) by simp
  ultimately show "X \<in> ?B" using ij(3) by simp
next
  fix X assume "X \<in> ?B"
  then have X: "tuple_ok n X" "length X = Suc (Suc l)" "good L X" by simp_all
  have inc: "increasing X" using X(1) by (simp add: tuple_ok_def)
  let ?i = "del_pos (Suc l) X" and ?j = "del_pos l X"
  have iL: "?i \<in> L" and jL: "?j \<in> L" using X(2,3) by (simp_all add: good_def)
  note p = parents_of[OF inc X(2)]
  from complete[OF iL jL p(2) p(1)] show "X \<in> ?A"
  proof
    assume "(?i, ?j) \<in> P"
    then have "X = combine ?i ?j \<and> (?i, ?j) \<in> P \<and> good L (combine ?i ?j)" using p(3) X(3) by simp
    then show ?thesis by blast
  next
    assume "(?j, ?i) \<in> P"
    then have "X = combine ?j ?i \<and> (?j, ?i) \<in> P \<and> good L (combine ?j ?i)" using p(4) X(3) by simp
    then show ?thesis by blast
  qed
qed


lemma candidate_eq:
  assumes "i \<noteq> []" "j \<noteq> []" "cache_get s i = Inr Pi" "cache_get s j = Inr Pj"
    and "cache s (length (combine i j)) = Some (Some m')"
  shows "candidate py L (i, j) (s, N) =
           Inr (if good L (combine i j)
                then (s\<lparr>cache := (cache s)(length (combine i j) \<mapsto>
                                      Some (m'(combine i j \<mapsto> intersection py Pi Pj)))\<rparr>,
                      insert (combine i j) N)
                else (s, N))"
  using assms unfolding candidate_def Let_def combine_def[symmetric] good_list_all
  by (simp add: register_partition_def)

lemma generate_as_loop:
  "generate_next_level py L s = foldE (candidate py L) (level_pairs py L) (new_level s, {})"
  by (simp add: generate_next_level_def level_pairs_def foldE_concat)

text \<open>The state after the generation has registered the partitions \<open>m'\<close> of the next level.\<close>

definition next_state :: "tane \<Rightarrow> level \<Rightarrow> tane" where
  "next_state s m' =
     s\<lparr>current_level := current_level s + 1, cache := (cache s)(current_level s + 1 \<mapsto> Some m')\<rparr>"

definition registered :: "interp \<Rightarrow> level \<Rightarrow> (attset \<times> attset) set \<Rightarrow> level \<Rightarrow> bool" where
  "registered py m P m' \<longleftrightarrow>
     (\<forall>X\<in>dom m'. \<exists>i j. (i, j) \<in> P \<and> X = combine i j \<and>
        m' X = Some (intersection py (the (m i)) (the (m j))))"

lemma registered_empty: "registered py m P Map.empty"
  by (simp add: registered_def)

lemma registered_mono: "registered py m P m' \<Longrightarrow> P \<subseteq> P' \<Longrightarrow> registered py m P' m'"
  unfolding registered_def by (meson subsetD)

lemma registered_upd:
  assumes "registered py m P m'" "(i, j) \<in> P"
  shows "registered py m P (m'(combine i j \<mapsto> intersection py (the (m i)) (the (m j))))"
  unfolding registered_def
proof
  let ?m = "m'(combine i j \<mapsto> intersection py (the (m i)) (the (m j)))"
  fix X assume X: "X \<in> dom ?m"
  show "\<exists>i' j'. (i', j') \<in> P \<and> X = combine i' j' \<and>
          ?m X = Some (intersection py (the (m i')) (the (m j')))"
  proof (cases "X = combine i j")
    case True
    then have "(i, j) \<in> P \<and> X = combine i j \<and>
              ?m X = Some (intersection py (the (m i)) (the (m j)))"
      using assms(2) by simp
    then show ?thesis by blast
  next
    case False
    then have "X \<in> dom m'" using X by auto
    with assms(1) obtain i' j' where "(i', j') \<in> P" "X = combine i' j'"
      "m' X = Some (intersection py (the (m i')) (the (m j')))"
      unfolding registered_def by blast
    then have "(i', j') \<in> P \<and> X = combine i' j' \<and>
              ?m X = Some (intersection py (the (m i')) (the (m j')))"
      using False by simp
    then show ?thesis by blast
  qed
qed

definition cands :: "attset set \<Rightarrow> (attset \<times> attset) list \<Rightarrow> attset set" where
  "cands L pre = {combine i j | i j. (i, j) \<in> set pre \<and> good L (combine i j)}"

lemma cands_snoc:
  "cands L (pre @ [(i, j)]) = (if good L (combine i j) then insert (combine i j) (cands L pre) else cands L pre)"
  by (auto simp: cands_def)

definition gen_inv ::
  "interp \<Rightarrow> tane \<Rightarrow> attset set \<Rightarrow> level \<Rightarrow> (attset \<times> attset) list \<Rightarrow> tane \<times> attset set \<Rightarrow> bool" where
  "gen_inv py s L m pre tN \<longleftrightarrow>
     (\<exists>m'. fst tN = next_state s m' \<and> dom m' = snd tN \<and> snd tN = cands L pre \<and>
           registered py m (set pre) m')"

lemma gen_invI:
  "dom m' = cands L pre \<Longrightarrow> registered py m (set pre) m' \<Longrightarrow>
   gen_inv py s L m pre (next_state s m', cands L pre)"
  unfolding gen_inv_def by auto

lemma generate_next_level_eq:
  assumes ok: "iter_ok py" and fin: "finite L"
    and L: "\<forall>X\<in>L. tuple_ok n X \<and> length X = Suc l"
    and cl: "current_level s = Suc l" and m: "cache s (Suc l) = Some (Some m)" and dm: "L \<subseteq> dom m"
  shows "\<exists>m'. generate_next_level py L s =
              Inr (next_state s m', {X. tuple_ok n X \<and> length X = Suc (Suc l) \<and> good L X}) \<and>
           dom m' = {X. tuple_ok n X \<and> length X = Suc (Suc l) \<and> good L X} \<and>
           registered py m {(i, j). i \<in> L \<and> j \<in> L \<and> i \<noteq> j \<and> butlast i = butlast j} m'"
proof -
  let ?ps = "level_pairs py L"
  have sound: "\<And>i j. (i, j) \<in> set ?ps \<Longrightarrow> i \<in> L \<and> j \<in> L \<and> i \<noteq> j \<and> butlast i = butlast j"
    using level_pairs_sound[OF ok fin] by blast
  have complete: "\<And>i j. i \<in> L \<Longrightarrow> j \<in> L \<Longrightarrow> i \<noteq> j \<Longrightarrow> butlast i = butlast j \<Longrightarrow>
      (i, j) \<in> set ?ps \<or> (j, i) \<in> set ?ps"
    using level_pairs_complete[OF ok fin] by blast
  have "\<exists>tN. foldE (candidate py L) ?ps (new_level s, {}) = Inr tN \<and> gen_inv py s L m ?ps tN"
  proof (rule foldE_total)
    have "new_level s = next_state s Map.empty" by (simp add: new_level_def next_state_def)
    moreover have "cands L [] = {}" by (simp add: cands_def)
    ultimately show "gen_inv py s L m [] (new_level s, {})"
      using gen_invI[of Map.empty L "[]" py m s] registered_empty by simp
  next
    fix pre p post tN
    assume split: "?ps = pre @ p # post" and I: "gen_inv py s L m pre tN"
    obtain i j where p: "p = (i, j)" by (cases p)
    obtain t N where tN: "tN = (t, N)" by (cases tN)
    from I tN obtain m' where m': "t = next_state s m'" "dom m' = N" "N = cands L pre"
      "registered py m (set pre) m'"
      by (auto simp: gen_inv_def)
    have "(i, j) \<in> set ?ps" unfolding split p by simp
    from sound[OF this] have ij: "i \<in> L" "j \<in> L" by simp_all
    have len: "length i = Suc l" "length j = Suc l" using L ij by simp_all
    then have ne: "i \<noteq> []" "j \<noteq> []" by auto
    obtain Pi Pj where P: "m i = Some Pi" "m j = Some Pj" using dm ij by blast
    have ct: "cache t (Suc l) = Some (Some m)" using m'(1) m cl by (simp add: next_state_def)
    have gi: "cache_get t i = Inr Pi" using ct P(1) len(1) by (simp add: cache_get_def)
    have gj: "cache_get t j = Inr Pj" using ct P(2) len(2) by (simp add: cache_get_def)
    let ?X = "combine i j"
    have lX: "length ?X = Suc (Suc l)" using length_combine[OF len] .
    have cX: "cache t (length ?X) = Some (Some m')" using m'(1) cl lX by (simp add: next_state_def)
    note step = candidate_eq[OF ne gi gj cX, of py L N]
    have mono: "registered py m (set (pre @ [p])) m'"
      using m'(4) by (rule registered_mono) auto
    show "\<exists>tN'. candidate py L p tN = Inr tN' \<and> gen_inv py s L m (pre @ [p]) tN'"
    proof (cases "good L ?X")
      case False
      have "cands L (pre @ [p]) = N" using False p m'(3) by (simp add: cands_snoc)
      then have "gen_inv py s L m (pre @ [p]) (t, N)"
        using gen_invI[of m' L "pre @ [p]" py m s] mono m'(1,2) by simp
      then show ?thesis using step False p tN by simp
    next
      case True
      let ?m = "m'(?X \<mapsto> intersection py Pi Pj)"
      have t': "t\<lparr>cache := (cache t)(length ?X \<mapsto> Some ?m)\<rparr> = next_state s ?m"
        using m'(1) cl lX by (simp add: next_state_def)
      have N': "cands L (pre @ [p]) = insert ?X N" using True p m'(3) by (simp add: cands_snoc)
      have "registered py m (set (pre @ [p])) (m'(?X \<mapsto> intersection py (the (m i)) (the (m j))))"
        using mono by (rule registered_upd) (simp add: p)
      then have "registered py m (set (pre @ [p])) ?m" using P by simp
      moreover have "dom ?m = insert ?X N" using m'(2) by simp
      ultimately have "gen_inv py s L m (pre @ [p]) (next_state s ?m, insert ?X N)"
        using gen_invI[of ?m L "pre @ [p]" py m s] N' by simp
      then show ?thesis using step True p tN t' by simp
    qed
  qed
  then obtain t N m' where r: "foldE (candidate py L) ?ps (new_level s, {}) = Inr (t, N)"
    "t = next_state s m'" "dom m' = N" "N = cands L ?ps"
    "registered py m (set ?ps) m'"
    by (auto simp: gen_inv_def)
  have N: "N = {X. tuple_ok n X \<and> length X = Suc (Suc l) \<and> good L X}"
    unfolding r(4) cands_def by (rule next_level_set[OF L sound complete])
  have "registered py m {(i, j). i \<in> L \<and> j \<in> L \<and> i \<noteq> j \<and> butlast i = butlast j} m'"
    using r(5) by (rule registered_mono) (use sound in auto)
  then show ?thesis using r(1,2,3) N unfolding generate_as_loop
    by (intro exI[of _ m']) simp
qed



section \<open>One pass of the loop\<close>

text \<open>
  What holds of the state and the level whenever the loop of \<open>run\<close> tests its condition:
  the level holds increasing tuples of attributes of length \<open>current_level\<close>, the cache
  has exactly the levels \<open>current_level - 1\<close> and \<open>current_level\<close>, with the partitions
  of the sets of the level and of their immediate subsets, and \<open>Cplus\<close> has entries
  for shorter tuples only.
\<close>

definition inv_struct :: "nat \<Rightarrow> tane \<times> attset set \<Rightarrow> bool" where
  "inv_struct n sL \<longleftrightarrow> (case sL of (s, L) \<Rightarrow>
     \<exists>l m. current_level s = Suc l \<and> length (T s) = n \<and> finite L \<and>
       (\<forall>X\<in>L. tuple_ok n X \<and> length X = Suc l) \<and>
       cache s (Suc l) = Some (Some m) \<and> L \<subseteq> dom m \<and>
       (if l = 0 then cache s 0 = Some None
        else \<exists>m0. cache s l = Some (Some m0) \<and> (\<forall>X\<in>L. \<forall>i<Suc l. del_pos i X \<in> dom m0)) \<and>
       dom (cache s) = {l, Suc l} \<and> store_ok n l (Cplus s))"

definition survivors :: "tane \<Rightarrow> attset set \<Rightarrow> attset set" where
  "survivors s L = {X \<in> L. \<not> sk s X \<and> cp (Cplus s) X \<noteq> {}}"

definition purged :: "tane \<Rightarrow> tane" where
  "purged s = s\<lparr>cache := (cache s)(current_level s - 2 := None)\<rparr>"

definition same_prefix :: "attset set \<Rightarrow> (attset \<times> attset) set" where
  "same_prefix L = {(i, j). i \<in> L \<and> j \<in> L \<and> i \<noteq> j \<and> butlast i = butlast j}"

definition candidates :: "nat \<Rightarrow> nat \<Rightarrow> attset set \<Rightarrow> attset set" where
  "candidates n k L = {X. tuple_ok n X \<and> length X = k \<and> good L X}"

lemma finite_tuples: "finite {X. tuple_ok n X \<and> length X = k}"
proof -
  have "{X. tuple_ok n X \<and> length X = k} \<subseteq> {X. set X \<subseteq> {..<n} \<and> length X = k}"
    by (auto simp: tuple_ok_def)
  moreover have "finite {X. set X \<subseteq> {..<n} \<and> length X = k}"
    by (rule finite_lists_length_eq) simp
  ultimately show ?thesis by (rule finite_subset)
qed

lemma finite_candidates: "finite (candidates n k L)"
  by (rule finite_subset[OF _ finite_tuples[of n k]]) (auto simp: candidates_def)

lemma tuple_length_le: "tuple_ok n X \<Longrightarrow> length X \<le> n"
proof -
  assume a: "tuple_ok n X"
  then have "distinct X" by (simp add: tuple_ok_def increasing_distinct)
  then have "length X = card (set X)" by (simp add: distinct_card)
  also have "\<dots> \<le> card {..<n}" using a by (intro card_mono) (auto simp: tuple_ok_def)
  finally show ?thesis by simp
qed

lemma inv_struct_ready:
  assumes "inv_struct n (s, L)"
  shows "level_ready n s L"
proof -
  from assms obtain l m where a: "current_level s = Suc l" "length (T s) = n" "finite L"
    "\<forall>X\<in>L. tuple_ok n X \<and> length X = Suc l" "cache s (Suc l) = Some (Some m)" "L \<subseteq> dom m"
    "if l = 0 then cache s 0 = Some None
     else \<exists>m0. cache s l = Some (Some m0) \<and> (\<forall>X\<in>L. \<forall>i<Suc l. del_pos i X \<in> dom m0)"
    unfolding inv_struct_def by auto
  have "tuple_ok n X \<and> X \<noteq> [] \<and> (\<exists>P. cache_get s X = Inr P) \<and>
        (\<forall>i<length X. 2 \<le> length X \<longrightarrow> (\<exists>P. cache_get s (del_pos i X) = Inr P))" if X: "X \<in> L" for X
  proof -
    have t: "tuple_ok n X" "length X = Suc l" using a(4) X by simp_all
    then have ne: "X \<noteq> []" by auto
    obtain P where "m X = Some P" using a(6) X by blast
    then have g: "cache_get s X = Inr P" using a(5) t(2) by (simp add: cache_get_def)
    have "\<exists>P. cache_get s (del_pos i X) = Inr P" if i: "i < length X" "2 \<le> length X" for i
    proof -
      have l: "l \<noteq> 0" using i(2) t(2) by simp
      then obtain m0 where m0: "cache s l = Some (Some m0)" "\<forall>X\<in>L. \<forall>i<Suc l. del_pos i X \<in> dom m0"
        using a(7) by auto
      then have "del_pos i X \<in> dom m0" using X i(1) t(2) by simp
      then obtain P0 where "m0 (del_pos i X) = Some P0" by blast
      moreover have "length (del_pos i X) = l" using length_del_pos[OF i(1)] t(2) by simp
      ultimately show ?thesis using m0(1) by (simp add: cache_get_def)
    qed
    then show ?thesis using t(1) ne g by blast
  qed
  then show ?thesis using a(2,3) unfolding level_ready_def by blast
qed

lemma tane_iteration_rule:
  assumes ok: "iter_ok py" and inv: "inv_struct n (s, L)"
    and J0: "J [] s"
    and Jstep: "\<And>pre X post t d1.
        iter_tuples py L = pre @ X # post \<Longrightarrow> J pre t \<Longrightarrow> store_ok n (current_level s) (Cplus t) \<Longrightarrow>
        cache t = cache s \<Longrightarrow> T t = T s \<Longrightarrow> current_level t = current_level s \<Longrightarrow>
        filled (Cplus t) d1 \<Longrightarrow> d1 X = Some (cp (Cplus t) X) \<Longrightarrow>
        (\<forall>k\<in>dom d1. k \<in> dom (Cplus t) \<or> (tuple_ok n k \<and> length k \<le> length X)) \<Longrightarrow>
        J (pre @ [X]) (node_result py X t d1 (cp (Cplus t) X)
                         (iter py (cp (Cplus t) X \<inter> set X)) (pos_of X) (fd_test s X))"
  obtains s1 t m m' where
    "compute_dependencies py L s = Inr s1"
    "J (iter_tuples py L) s1" "store_ok n (current_level s) (Cplus s1)"
    "cache s1 = cache s" "T s1 = T s" "current_level s1 = current_level s"
    "fills n (current_level s) s1 t"
    "prune py L s1 = Inr (t\<lparr>rules := rules s1 @ level_rules py s1 (iter_tuples py L)\<rparr>, survivors s1 L)"
    "cache s (current_level s) = Some (Some m)"
    "dom m' = candidates n (Suc (current_level s)) (survivors s1 L)"
    "registered py m (same_prefix (survivors s1 L)) m'"
    "tane_iteration py (s, L) =
       Inr (purged (next_state (t\<lparr>rules := rules s1 @ level_rules py s1 (iter_tuples py L)\<rparr>) m'),
            candidates n (Suc (current_level s)) (survivors s1 L))"
    "inv_struct n
       (purged (next_state (t\<lparr>rules := rules s1 @ level_rules py s1 (iter_tuples py L)\<rparr>) m'),
        candidates n (Suc (current_level s)) (survivors s1 L))"
proof -
  from inv obtain l m where a: "current_level s = Suc l" "length (T s) = n" "finite L"
    "\<forall>X\<in>L. tuple_ok n X \<and> length X = Suc l" "cache s (Suc l) = Some (Some m)" "L \<subseteq> dom m"
    "if l = 0 then cache s 0 = Some None
     else \<exists>m0. cache s l = Some (Some m0) \<and> (\<forall>X\<in>L. \<forall>i<Suc l. del_pos i X \<in> dom m0)"
    "dom (cache s) = {l, Suc l}" "store_ok n l (Cplus s)"
    unfolding inv_struct_def by auto
  have rdy: "level_ready n s L" using inv by (rule inv_struct_ready)
  have st: "store_ok n (Suc l) (Cplus s)" using a(9) by (rule store_ok_mono) simp
  have lenL: "\<forall>X\<in>L. length X \<le> Suc l" using a(4) by simp
  have "\<exists>s'. compute_dependencies py L s = Inr s' \<and> J (iter_tuples py L) s' \<and>
           store_ok n (Suc l) (Cplus s') \<and> cache s' = cache s \<and> T s' = T s \<and>
           current_level s' = current_level s"
  proof (rule compute_dependencies_rule[of py n s L "Suc l" J, OF ok rdy st lenL J0])
    fix pre X post t d1
    assume h: "iter_tuples py L = pre @ X # post" "J pre t" "store_ok n (Suc l) (Cplus t)"
        "cache t = cache s" "T t = T s" "current_level t = current_level s"
        "filled (Cplus t) d1" "d1 X = Some (cp (Cplus t) X)"
        "\<forall>k\<in>dom d1. k \<in> dom (Cplus t) \<or> (tuple_ok n k \<and> length k \<le> length X)"
    have "store_ok n (current_level s) (Cplus t)" using h(3) a(1) by simp
    then show "J (pre @ [X]) (node_result py X t d1 (cp (Cplus t) X)
                         (iter py (cp (Cplus t) X \<inter> set X)) (pos_of X) (fd_test s X))"
      by (rule Jstep[OF h(1,2) _ h(4,5,6,7,8,9)])
  qed
  then obtain s1 where s1: "compute_dependencies py L s = Inr s1" "J (iter_tuples py L) s1"
    "store_ok n (Suc l) (Cplus s1)" "cache s1 = cache s" "T s1 = T s"
    "current_level s1 = current_level s"
    by blast
  have rdy1: "level_ready n s1 L" using level_ready_frame[OF rdy s1(4,5)] .
  from prune_eq[OF ok rdy1 s1(3) lenL] obtain t where
    t: "prune py L s1 = Inr (t\<lparr>rules := rules s1 @ level_rules py s1 (iter_tuples py L)\<rparr>,
                             {X \<in> L. \<not> sk s1 X \<and> cp (Cplus s1) X \<noteq> {}})"
      "fills n (Suc l) s1 t" by blast
  let ?s2 = "t\<lparr>rules := rules s1 @ level_rules py s1 (iter_tuples py L)\<rparr>"
  let ?L' = "survivors s1 L"
  have L': "?L' \<subseteq> L" by (auto simp: survivors_def)
  have fL': "finite ?L'" using a(3) L' by (rule rev_finite_subset)
  have sL': "\<forall>X\<in>?L'. tuple_ok n X \<and> length X = Suc l" using a(4) L' by blast
  have ct: "cache t = cache s" "T t = T s" "current_level t = Suc l"
    using t(2) s1(4,5,6) a(1) by (simp_all add: fills_def)
  have c2: "cache ?s2 (Suc l) = Some (Some m)" using ct(1) a(5) by simp
  have cl2: "current_level ?s2 = Suc l" using ct(3) by simp
  have dm: "?L' \<subseteq> dom m" using L' a(6) by blast
  from generate_next_level_eq[OF ok fL' sL' cl2 c2 dm] obtain m' where
    m': "generate_next_level py ?L' ?s2 =
           Inr (next_state ?s2 m', {X. tuple_ok n X \<and> length X = Suc (Suc l) \<and> good ?L' X})"
      "dom m' = {X. tuple_ok n X \<and> length X = Suc (Suc l) \<and> good ?L' X}"
      "registered py m {(i, j). i \<in> ?L' \<and> j \<in> ?L' \<and> i \<noteq> j \<and> butlast i = butlast j} m'"
    by blast
  let ?N = "candidates n (Suc (Suc l)) ?L'"
  have N: "{X. tuple_ok n X \<and> length X = Suc (Suc l) \<and> good ?L' X} = ?N"
    by (simp add: candidates_def)
  let ?s3 = "next_state ?s2 m'"
  have c3: "cache ?s3 = (cache s)(Suc (Suc l) \<mapsto> Some m')" "current_level ?s3 = Suc (Suc l)"
    "T ?s3 = T s" "Cplus ?s3 = Cplus t"
    using ct by (simp_all add: next_state_def)
  have old: "cache s l \<noteq> None" using a(7) by (cases "l = 0") auto
  have pg: "purge_old_level ?s3 = Inr (purged ?s3)"
    using c3(1,2) old by (simp add: purge_old_level_def purged_def)
  have it: "tane_iteration py (s, L) = Inr (purged ?s3, ?N)"
    using s1(1) t(1) m'(1) pg N by (simp add: tane_iteration_def survivors_def)
  have c4: "cache (purged ?s3) = (cache s)(Suc (Suc l) \<mapsto> Some m', l := None)"
    "current_level (purged ?s3) = Suc (Suc l)" "T (purged ?s3) = T s" "Cplus (purged ?s3) = Cplus t"
    using c3 by (simp_all add: purged_def)
  have inv': "inv_struct n (purged ?s3, ?N)"
  proof -
    have 1: "\<forall>X\<in>?N. tuple_ok n X \<and> length X = Suc (Suc l)" by (simp add: candidates_def)
    have 2: "cache (purged ?s3) (Suc (Suc l)) = Some (Some m')" using c4(1) by simp
    have 3: "?N \<subseteq> dom m'" using m'(2) N by simp
    have 4: "cache (purged ?s3) (Suc l) = Some (Some m)" using c4(1) a(5) by simp
    have 5: "\<forall>X\<in>?N. \<forall>i<Suc (Suc l). del_pos i X \<in> dom m"
      using dm by (auto simp: candidates_def good_def)
    have 6: "dom (cache (purged ?s3)) = {Suc l, Suc (Suc l)}" using c4(1) a(8) by auto
    have 7: "store_ok n (Suc l) (Cplus (purged ?s3))"
      using fills_store_ok[OF t(2) s1(3)] c4(4) by simp
    have "current_level (purged ?s3) = Suc (Suc l) \<and> length (T (purged ?s3)) = n \<and> finite ?N \<and>
       (\<forall>X\<in>?N. tuple_ok n X \<and> length X = Suc (Suc l)) \<and>
       cache (purged ?s3) (Suc (Suc l)) = Some (Some m') \<and> ?N \<subseteq> dom m' \<and>
       (if Suc l = 0 then cache (purged ?s3) 0 = Some None
        else \<exists>m0. cache (purged ?s3) (Suc l) = Some (Some m0) \<and>
               (\<forall>X\<in>?N. \<forall>i<Suc (Suc l). del_pos i X \<in> dom m0)) \<and>
       dom (cache (purged ?s3)) = {Suc l, Suc (Suc l)} \<and> store_ok n (Suc l) (Cplus (purged ?s3))"
      using c4(2,3) a(2) finite_candidates 1 2 3 4 5 6 7 by auto
    then show ?thesis unfolding inv_struct_def by blast
  qed
  show ?thesis
    using that[of s1 t m m'] s1 t(2) t(1)[folded survivors_def] a(1,5) m'(2,3)[unfolded N]
      it inv' unfolding same_prefix_def by simp
qed

definition py_sorted :: "bool \<Rightarrow> interp" where
  "py_sorted e = \<lparr>eager_map = e, iter = sorted_list_of_set, iter_tuples = sorted_list_of_set\<rparr>"

lemma iter_ok_py_sorted: "iter_ok (py_sorted e)"
  by (simp add: iter_ok_def py_sorted_def)

text \<open>
  Claim C9. For two stripped partitions (pairwise disjoint classes, each finite with at
  least two rows) the stripped product yields the same classes in both orders of its
  arguments, compared as sets of sets of rows, whatever the order in which the sets are
  iterated.
\<close>

theorem intersection_symmetric:
  assumes "iter_ok py" "stripped A" "stripped B"
  shows "set (intersection py A B) = set (intersection py B A)"
  using assms by (simp add: set_intersection stripped_def product_classes_commute)

lemma stripped_example_A: "stripped [{0, 1, 2}, {3, 4}]"
  by (simp add: stripped_def pairwise_disjoint_def)

lemma stripped_example_B: "stripped [{0, 1}, {2, 3, 4}]"
  by (simp add: stripped_def pairwise_disjoint_def)

theorem intersection_symmetric_witness:
  "iter_ok (py_sorted False) \<and> stripped [{0, 1, 2}, {3, 4}] \<and> stripped [{0, 1}, {2, 3, 4}] \<and>
   intersection (py_sorted False) [{0, 1, 2}, {3, 4}] [{0, 1}, {2, 3, 4}] = [{0, 1}, {3, 4}] \<and>
   set (intersection (py_sorted False) [{0, 1, 2}, {3, 4}] [{0, 1}, {2, 3, 4}]) =
   set (intersection (py_sorted False) [{0, 1}, {2, 3, 4}] [{0, 1, 2}, {3, 4}])"
proof -
  have v: "intersection (py_sorted False) [{0, 1, 2}, {3, 4}] [{0, 1}, {2, 3, 4}] = [{0, 1}, {3, 4}]"
    by code_simp
  show ?thesis
    using intersection_symmetric[OF iter_ok_py_sorted stripped_example_A stripped_example_B, of False]
      iter_ok_py_sorted[of False] stripped_example_A stripped_example_B v
    by simp
qed


end
